theory Spec2Isabelle
  imports Complex_Main "HOL-Library.Multiset"
begin

section \<open>JavaScript numbers\<close>

text \<open>
  The numbers of the program are IEEE-754 doubles. The inputs of the simulations hold
  integers, and so does every number computed from them by \<open>+\<close> and \<open>-\<close>; they are
  modelled as \<open>int\<close>. A double has a significand of 53 bits: an integer of magnitude up
  to \<open>2^53\<close> (9007199254740992) is exact, a larger one is rounded to the nearest multiple of the unit in
  the last place, a tie going to the even significand. \<open>dbl\<close> is this rounding, and
  \<open>a + b\<close>, \<open>a - b\<close> of the program are \<open>dadd a b\<close>, \<open>dsub a b\<close>. Comparisons,
  \<open>Math.max\<close>, \<open>Math.min\<close> and \<open>Math.abs\<close> are exact. The sign of a rounded difference
  is the sign of the difference, so a comparator \<open>(a,b) => a.k - b.k\<close> orders by the key.
  A result of magnitude \<open>2^1024\<close> or more, which the program turns into \<open>Infinity\<close>, is
  beyond this model: its numbers are the finite ones.
\<close>

function bit_length :: "int \<Rightarrow> nat" where
  "bit_length n = (if n \<le> 0 then 0 else Suc (bit_length (n div 2)))"
  by pat_completeness auto
termination
  by (relation "measure nat") auto

declare bit_length.simps [simp del]

definition dbl :: "int \<Rightarrow> int" where
  "dbl x =
     (if \<bar>x\<bar> \<le> 9007199254740992 then x
      else
        (let a = \<bar>x\<bar>;
             ulp = 2 ^ (bit_length a - 53);
             q = a div ulp;
             r = a mod ulp;
             q' = (if 2 * r < ulp then q
                   else if ulp < 2 * r then q + 1
                   else if even q then q else q + 1)
         in sgn x * (q' * ulp)))"

definition dadd :: "int \<Rightarrow> int \<Rightarrow> int" where
  "dadd a b = dbl (a + b)"

definition dsub :: "int \<Rightarrow> int \<Rightarrow> int" where
  "dsub a b = dbl (a - b)"

lemma dbl_exact: "\<bar>x\<bar> \<le> 2 ^ 53 \<Longrightarrow> dbl x = x"
  by (simp add: dbl_def)

lemma dadd_exact: "\<bar>a + b\<bar> \<le> 2 ^ 53 \<Longrightarrow> dadd a b = a + b"
  by (simp add: dadd_def dbl_exact)

lemma dsub_exact: "\<bar>a - b\<bar> \<le> 2 ^ 53 \<Longrightarrow> dsub a b = a - b"
  by (simp add: dsub_def dbl_exact)

section \<open>Disk scheduling (App.js, pathFCFS .. pathCSCAN)\<close>

text \<open>
  Cylinders are numbers holding integers.
  \<open>pathFCFS(queue, head)\<close> is \<open>[head, ...queue]\<close>.
\<close>

definition pathFCFS :: "int list \<Rightarrow> int \<Rightarrow> int list" where
  "pathFCFS queue head = head # queue"

text \<open>
  The body of \<open>q.forEach((v,i) => { const d = Math.abs(v-cur); if (d < best) {best = d; idx = i;} })\<close>
  in \<open>pathSSTF\<close>. The running pair is \<open>(idx, best)\<close>; \<open>best = Infinity\<close> is \<open>None\<close>,
  and every finite distance is below it.
\<close>

fun sstf_scan :: "int \<Rightarrow> int list \<Rightarrow> nat \<Rightarrow> nat \<times> int option \<Rightarrow> nat \<times> int option" where
  "sstf_scan cur [] i (idx, best) = (idx, best)"
| "sstf_scan cur (v # vs) i (idx, best) =
     (let d = \<bar>dsub v cur\<bar> in
      if (case best of None \<Rightarrow> True | Some b \<Rightarrow> d < b)
      then sstf_scan cur vs (i + 1) (i, Some d)
      else sstf_scan cur vs (i + 1) (idx, best))"

text \<open>\<open>let idx = 0, best = Infinity; q.forEach(...)\<close>: the index chosen for one round.\<close>

definition sstf_pick :: "int \<Rightarrow> int list \<Rightarrow> nat" where
  "sstf_pick cur q = fst (sstf_scan cur q 0 (0, None))"

text \<open>\<open>q.splice(idx, 1)\<close> removes the element at \<open>idx\<close> from \<open>q\<close>.\<close>

definition splice1 :: "'a list \<Rightarrow> nat \<Rightarrow> 'a list" where
  "splice1 q idx = take idx q @ drop (Suc idx) q"

lemma sstf_scan_bound:
  "sstf_scan cur vs i (idx, best) = (idx', best') \<Longrightarrow> idx < i + length vs \<Longrightarrow> idx' < i + length vs"
proof (induction vs arbitrary: i idx best)
  case Nil
  then show ?case by simp
next
  case (Cons v vs)
  show ?case
  proof (cases "case best of None \<Rightarrow> True | Some b \<Rightarrow> \<bar>dsub v cur\<bar> < b")
    case True
    with Cons.prems have "sstf_scan cur vs (i + 1) (i, Some \<bar>dsub v cur\<bar>) = (idx', best')"
      by (simp add: Let_def)
    from Cons.IH [OF this] show ?thesis by simp
  next
    case False
    with Cons.prems have "sstf_scan cur vs (i + 1) (idx, best) = (idx', best')"
      by (simp add: Let_def)
    from Cons.IH [OF this] Cons.prems(2) show ?thesis by simp
  qed
qed

lemma sstf_pick_less: "q \<noteq> [] \<Longrightarrow> sstf_pick cur q < length q"
proof -
  assume ne: "q \<noteq> []"
  obtain a b where ab: "sstf_scan cur q 0 (0, None) = (a, b)"
    by (cases "sstf_scan cur q 0 (0, None)")
  from sstf_scan_bound [OF ab] ne have "a < length q" by simp
  with ab show ?thesis by (simp add: sstf_pick_def)
qed

text \<open>
  The \<open>while (q.length)\<close> loop of \<open>pathSSTF\<close>: \<open>cur = q.splice(idx,1)[0]; path.push(cur)\<close>.
  The queue shrinks by one element each round.
\<close>

function pathSSTF_loop :: "int list \<Rightarrow> int \<Rightarrow> int list \<Rightarrow> int list" where
  "pathSSTF_loop q cur path =
     (if q = [] then path
      else let idx = sstf_pick cur q; cur' = q ! idx
           in pathSSTF_loop (splice1 q idx) cur' (path @ [cur']))"
  by pat_completeness auto
termination
proof (relation "measure (\<lambda>(q, cur, path). length q)")
  show "wf (measure (\<lambda>(q, cur, path). length q))" by simp
next
  fix q :: "int list" and cur :: int and path :: "int list" and x xa
  assume "q \<noteq> []" and "x = sstf_pick cur q"
  then have "x < length q" by (simp add: sstf_pick_less)
  then show "((splice1 q x, xa, path @ [xa]), (q, cur, path)) \<in> measure (\<lambda>(q, cur, path). length q)"
    by (simp add: splice1_def)
qed

declare pathSSTF_loop.simps [simp del]

definition pathSSTF :: "int list \<Rightarrow> int \<Rightarrow> int list" where
  "pathSSTF queue head = pathSSTF_loop queue head [head]"

text \<open>
  \<open>sort((a,b) => a-b)\<close> on integers is the ascending numeric sort; \<open>below.reverse()\<close>
  is \<open>rev\<close>. The source's parameter \<open>max\<close> is called \<open>maxc\<close> here.
\<close>

definition pathSCAN :: "int list \<Rightarrow> int \<Rightarrow> int \<Rightarrow> int list" where
  "pathSCAN queue head maxc =
     (let below = sort (filter (\<lambda>x. x < head) queue);
          above = sort (filter (\<lambda>x. x \<ge> head) queue)
      in [head] @ above @ [maxc] @ rev below)"

definition pathCSCAN :: "int list \<Rightarrow> int \<Rightarrow> int \<Rightarrow> int list" where
  "pathCSCAN queue head maxc =
     (let above = sort (filter (\<lambda>x. x \<ge> head) queue);
          below = sort (filter (\<lambda>x. x < head) queue)
      in [head] @ above @ [maxc, 0] @ below)"

section \<open>Page replacement (App.js, fifoPage and lruPage)\<close>

text \<open>
  A timeline entry \<open>{step, page, frames, hit}\<close>. A frame slot holds a page number or
  \<open>null\<close> (\<open>None\<close>). The fields carry the prefix \<open>ts_\<close>, the result's fields are
  \<open>timeline\<close> and \<open>faults\<close> as in the source. Page numbers are integers, the frame
  count is a natural number (\<open>Array(frames)\<close> throws for anything else).
\<close>

record timeline_step =
  ts_step :: nat
  ts_page :: int
  ts_frames :: "int option list"
  ts_hit :: bool

record page_result =
  timeline :: "timeline_step list"
  faults :: nat

text \<open>
  \<open>frameArr[ptr] = p\<close>. \<open>ptr\<close> is \<open>None\<close> when it is \<open>NaN\<close> (after \<open>% 0\<close>): the
  assignment then sets a property and leaves the elements alone. An index at or past the
  length extends the array, the skipped slots reading as empty.
\<close>

definition js_store :: "int option list \<Rightarrow> nat option \<Rightarrow> int \<Rightarrow> int option list" where
  "js_store frameArr ptr p =
     (case ptr of
        None \<Rightarrow> frameArr
      | Some k \<Rightarrow>
          if k < length frameArr then frameArr[k := Some p]
          else frameArr @ replicate (k - length frameArr) None @ [Some p])"

text \<open>\<open>ptr = (ptr+1) % frames\<close>; the remainder by zero is \<open>NaN\<close>, and \<open>NaN\<close> stays.\<close>

definition next_ptr :: "nat option \<Rightarrow> nat \<Rightarrow> nat option" where
  "next_ptr ptr nframes =
     (case ptr of
        None \<Rightarrow> None
      | Some k \<Rightarrow> if nframes = 0 then None else Some ((k + 1) mod nframes))"

text \<open>
  The \<open>refs.forEach((p,i) => ...)\<close> of \<open>fifoPage\<close>, with the mutable variables
  \<open>frameArr\<close>, \<open>ptr\<close>, \<open>faults\<close> and \<open>timeline\<close> passed along.
\<close>

fun fifo_steps ::
  "nat \<Rightarrow> int list \<Rightarrow> nat \<Rightarrow> int option list \<Rightarrow> nat option \<Rightarrow> nat \<Rightarrow> timeline_step list
     \<Rightarrow> page_result" where
  "fifo_steps nframes [] i frameArr ptr fl tline = \<lparr>timeline = tline, faults = fl\<rparr>"
| "fifo_steps nframes (p # rest) i frameArr ptr fl tline =
     (let hit = (Some p \<in> set frameArr) in
      if \<not> hit then
        (let frameArr' = js_store frameArr ptr p;
             ptr' = next_ptr ptr nframes
         in fifo_steps nframes rest (i + 1) frameArr' ptr' (fl + 1)
              (tline @ [\<lparr>ts_step = i, ts_page = p, ts_frames = frameArr', ts_hit = hit\<rparr>]))
      else fifo_steps nframes rest (i + 1) frameArr ptr fl
              (tline @ [\<lparr>ts_step = i, ts_page = p, ts_frames = frameArr, ts_hit = hit\<rparr>]))"

definition fifoPage :: "int list \<Rightarrow> nat \<Rightarrow> page_result" where
  "fifoPage refs nframes = fifo_steps nframes refs 0 (replicate nframes None) (Some 0) 0 []"

text \<open>\<open>Array.prototype.indexOf\<close>: the first index holding the value, \<open>None\<close> for \<open>-1\<close>.\<close>

fun indexOf :: "'a list \<Rightarrow> 'a \<Rightarrow> nat option" where
  "indexOf [] x = None"
| "indexOf (y # ys) x = (if y = x then Some 0 else map_option Suc (indexOf ys x))"

text \<open>\<open>lastUsed.get(q) ?? -1\<close> on the map \<open>lastUsed\<close> from pages to step indices.\<close>

definition used_at :: "(int \<rightharpoonup> nat) \<Rightarrow> int \<Rightarrow> int" where
  "used_at lastUsed q = (case lastUsed q of None \<Rightarrow> - 1 | Some t \<Rightarrow> int t)"

text \<open>
  The eviction of \<open>lruPage\<close>: start from \<open>frameArr[0]\<close>, replace the candidate by a page
  used strictly earlier, then overwrite the candidate's first position. On an empty
  \<open>frameArr\<close> (frame count 0) the candidate is \<open>undefined\<close>, \<open>indexOf\<close> gives \<open>-1\<close> and
  the write leaves the elements alone.
\<close>

definition lru_victim :: "(int \<rightharpoonup> nat) \<Rightarrow> int list \<Rightarrow> int \<Rightarrow> int" where
  "lru_victim lastUsed frameArr f0 =
     fst (fold (\<lambda>q (lruP, lruT). let t = used_at lastUsed q in if t < lruT then (q, t) else (lruP, lruT))
            frameArr (f0, used_at lastUsed f0))"

definition lru_evict :: "(int \<rightharpoonup> nat) \<Rightarrow> int list \<Rightarrow> int \<Rightarrow> int list" where
  "lru_evict lastUsed frameArr p =
     (case frameArr of
        [] \<Rightarrow> frameArr
      | f0 # _ \<Rightarrow>
          (case indexOf frameArr (lru_victim lastUsed frameArr f0) of
             None \<Rightarrow> frameArr
           | Some evIdx \<Rightarrow> frameArr[evIdx := p]))"

text \<open>\<open>[...frameArr, ...Array(frames - frameArr.length).fill(null)]\<close>\<close>

definition pad_frames :: "nat \<Rightarrow> int list \<Rightarrow> int option list" where
  "pad_frames nframes frameArr = map Some frameArr @ replicate (nframes - length frameArr) None"

fun lru_steps ::
  "nat \<Rightarrow> int list \<Rightarrow> nat \<Rightarrow> int list \<Rightarrow> (int \<rightharpoonup> nat) \<Rightarrow> nat \<Rightarrow> timeline_step list
     \<Rightarrow> page_result" where
  "lru_steps nframes [] i frameArr lastUsed fl tline = \<lparr>timeline = tline, faults = fl\<rparr>"
| "lru_steps nframes (p # rest) i frameArr lastUsed fl tline =
     (case indexOf frameArr p of
        Some idx \<Rightarrow>
          lru_steps nframes rest (i + 1) frameArr (lastUsed(p \<mapsto> i)) fl
            (tline @ [\<lparr>ts_step = i, ts_page = p, ts_frames = pad_frames nframes frameArr, ts_hit = True\<rparr>])
      | None \<Rightarrow>
          (let frameArr' = (if length frameArr < nframes then frameArr @ [p]
                            else lru_evict lastUsed frameArr p)
           in lru_steps nframes rest (i + 1) frameArr' (lastUsed(p \<mapsto> i)) (fl + 1)
                (tline @ [\<lparr>ts_step = i, ts_page = p, ts_frames = map Some frameArr', ts_hit = False\<rparr>])))"

text \<open>The final \<open>timeline.forEach\<close> pads every snapshot shorter than the frame count.\<close>

definition normalize_step :: "nat \<Rightarrow> timeline_step \<Rightarrow> timeline_step" where
  "normalize_step nframes t =
     (if length (ts_frames t) < nframes
      then t\<lparr>ts_frames := ts_frames t @ replicate (nframes - length (ts_frames t)) None\<rparr>
      else t)"

definition lruPage :: "int list \<Rightarrow> nat \<Rightarrow> page_result" where
  "lruPage refs nframes =
     (let r = lru_steps nframes refs 0 [] Map.empty 0 []
      in \<lparr>timeline = map (normalize_step nframes) (timeline r), faults = faults r\<rparr>)"

section \<open>CPU scheduling (App.js, fcfs .. roundRobin)\<close>

text \<open>
  A process \<open>{pid, arrival, burst, priority}\<close>; times are numbers holding integers,
  added and subtracted as doubles (\<open>dadd\<close>, \<open>dsub\<close>). \<open>priority\<close> may be
  missing (\<open>p.priority ?? 0\<close>), so it is optional. A schedule segment is
  \<open>{pid, start, end}\<close>; \<open>srtf\<close> pushes segments with \<open>end: null\<close> and closes them
  later, so the end is optional. The segment's fields carry the prefix \<open>seg_\<close>.
\<close>

record process =
  pid :: string
  arrival :: int
  burst :: int
  priority :: "int option"

record segment =
  seg_pid :: string
  seg_start :: int
  seg_end :: "int option"

text \<open>\<open>null\<close> in arithmetic is 0: \<open>b.end - b.start\<close> with an open end is \<open>0 - b.start\<close>.\<close>

definition js_num :: "int option \<Rightarrow> int" where
  "js_num v = (case v of None \<Rightarrow> 0 | Some n \<Rightarrow> n)"

definition seg_len :: "segment \<Rightarrow> int" where
  "seg_len s = js_num (seg_end s) - seg_start s"

text \<open>
  \<open>schedule.filter(s => s.pid === pid).reduce((a,b) => a + (b.end - b.start), 0)\<close>, the
  executed time of \<open>computeMetrics\<close>.
\<close>

definition executed :: "segment list \<Rightarrow> string \<Rightarrow> int" where
  "executed schedule k = sum_list (map seg_len (filter (\<lambda>s. seg_pid s = k) schedule))"

subsection \<open>fcfs\<close>

text \<open>
  \<open>clone(processes).sort((a,b) => a.arrival - b.arrival)\<close> is a stable sort by arrival
  (\<open>sort_key\<close> is a stable insertion sort); the \<open>for\<close> loop follows.
\<close>

fun fcfs_loop :: "process list \<Rightarrow> int \<Rightarrow> segment list \<Rightarrow> segment list" where
  "fcfs_loop [] t schedule = schedule"
| "fcfs_loop (p # ps) t schedule =
     (let t' = max t (arrival p)
      in fcfs_loop ps (dadd t' (burst p))
           (schedule @ [\<lparr>seg_pid = pid p, seg_start = t', seg_end = Some (dadd t' (burst p))\<rparr>]))"

definition fcfs :: "process list \<Rightarrow> segment list" where
  "fcfs processes = fcfs_loop (sort_key arrival processes) 0 []"

subsection \<open>sjf\<close>

text \<open>
  \<open>Math.min(...processes.map(p => p.arrival))\<close>, the start of the clock. For the empty
  list the source has \<open>Infinity\<close>; no loop below reads the clock then (each loop
  condition is false at once), and the model has 0 there.
\<close>

definition min_arrival :: "process list \<Rightarrow> int" where
  "min_arrival processes =
     (case processes of [] \<Rightarrow> 0 | p # ps \<Rightarrow> fold min (map arrival ps) (arrival p))"

text \<open>A JavaScript \<open>Set\<close> of pids, in insertion order; \<open>size\<close> is the length.\<close>

definition set_add :: "string list \<Rightarrow> string \<Rightarrow> string list" where
  "set_add seen k = (if k \<in> set seen then seen else seen @ [k])"

text \<open>
  \<open>for (const p of procs) if (!seen.has(p.pid) && p.arrival <= t && !ready.find(r => r.pid === p.pid)) ready.push(p)\<close>
\<close>

definition sjf_admit :: "string list \<Rightarrow> int \<Rightarrow> process list \<Rightarrow> process list \<Rightarrow> process list" where
  "sjf_admit seen t procs ready =
     fold (\<lambda>p rdy. if pid p \<notin> set seen \<and> arrival p \<le> t \<and> pid p \<notin> set (map pid rdy)
                    then rdy @ [p] else rdy) procs ready"

text \<open>
  The \<open>while (seen.size < procs.length)\<close> loop. It need not end (two processes with one
  pid never fill \<open>seen\<close>), so the result is optional: \<open>None\<close> is a loop that runs forever.
\<close>

partial_function (option) sjf_loop ::
  "process list \<Rightarrow> int \<Rightarrow> process list \<Rightarrow> string list \<Rightarrow> segment list \<Rightarrow> segment list option" where
  "sjf_loop procs t ready seen schedule =
     (if length seen < length procs then
        (let ready1 = sjf_admit seen t procs ready in
         if ready1 = [] then sjf_loop procs (dadd t 1) ready1 seen schedule
         else
           (let ready2 = sort_key burst ready1;
                p = hd ready2
            in sjf_loop procs (dadd t (burst p)) (tl ready2) (set_add seen (pid p))
                 (schedule @ [\<lparr>seg_pid = pid p, seg_start = t, seg_end = Some (dadd t (burst p))\<rparr>])))
      else Some schedule)"

declare sjf_loop.simps [code]

definition sjf :: "process list \<Rightarrow> segment list option" where
  "sjf processes = sjf_loop processes (min_arrival processes) [] [] []"

subsection \<open>srtf\<close>

text \<open>
  The working copies \<open>{...p, remaining: p.burst}\<close> are the list \<open>procs\<close> and, beside it,
  the list \<open>rem\<close> of the remaining times. \<open>current\<close> and \<open>next\<close> are references to
  elements of \<open>procs\<close>: they are positions in the list.

  \<open>if (current && schedule.length && schedule[schedule.length-1].end === null) schedule[schedule.length-1].end = t\<close>
  for a non-null \<open>current\<close>:
\<close>

definition close_open :: "int \<Rightarrow> segment list \<Rightarrow> segment list" where
  "close_open t schedule =
     (if schedule \<noteq> [] \<and> seg_end (last schedule) = None
      then butlast schedule @ [(last schedule)\<lparr>seg_end := Some t\<rparr>]
      else schedule)"

text \<open>
  \<open>schedule[schedule.length-1].end = t\<close> when the running process finishes. A segment
  was pushed when \<open>current\<close> was set, so the schedule is not empty there.
\<close>

definition set_last_end :: "int \<Rightarrow> segment list \<Rightarrow> segment list" where
  "set_last_end t schedule =
     (if schedule = [] then schedule
      else butlast schedule @ [(last schedule)\<lparr>seg_end := Some t\<rparr>])"

text \<open>
  \<open>procs.filter(p => p.arrival <= t && p.remaining > 0)\<close>, as positions, then the stable
  \<open>ready.sort((a,b) => a.remaining - b.remaining)\<close> and \<open>ready[0]\<close>.
\<close>

definition srtf_ready :: "process list \<Rightarrow> int \<Rightarrow> int list \<Rightarrow> nat list" where
  "srtf_ready procs t rem = filter (\<lambda>i. arrival (procs ! i) \<le> t \<and> rem ! i > 0) [0..<length procs]"

definition srtf_next :: "int list \<Rightarrow> nat list \<Rightarrow> nat" where
  "srtf_next rem ready = hd (sort_key (\<lambda>i. rem ! i) ready)"

text \<open>
  The dispatch of one tick: the schedule and the running position after
  \<open>if (!current || current.pid !== next.pid) { ...; schedule.push({pid: next.pid, start: t, end: null}); current = next; }\<close>
\<close>

definition srtf_dispatch ::
  "process list \<Rightarrow> int \<Rightarrow> segment list \<Rightarrow> nat option \<Rightarrow> nat \<Rightarrow> segment list \<times> nat" where
  "srtf_dispatch procs t schedule current nxt =
     (case current of
        None \<Rightarrow> (schedule @ [\<lparr>seg_pid = pid (procs ! nxt), seg_start = t, seg_end = None\<rparr>], nxt)
      | Some c \<Rightarrow>
          if pid (procs ! c) \<noteq> pid (procs ! nxt)
          then (close_open t schedule @ [\<lparr>seg_pid = pid (procs ! nxt), seg_start = t, seg_end = None\<rparr>], nxt)
          else (schedule, c))"

text \<open>
  One pass through the body of \<open>while (procs.some(p => p.remaining > 0))\<close>, a tick: the
  clock, the remaining times, the schedule and the running position before and after.
  With nobody ready only the clock moves (\<open>t++; continue\<close>); otherwise the chosen
  process is dispatched and runs one unit (\<open>current.remaining--; t++\<close>), and its segment
  is closed when it finishes.
\<close>

type_synonym srtf_state = "int \<times> int list \<times> segment list \<times> nat option"

definition srtf_tick :: "process list \<Rightarrow> srtf_state \<Rightarrow> srtf_state" where
  "srtf_tick procs st =
     (case st of (t, rem, schedule, current) \<Rightarrow>
        (let ready = srtf_ready procs t rem in
         if ready = [] then (dadd t 1, rem, schedule, current)
         else
           (let d = srtf_dispatch procs t schedule current (srtf_next rem ready);
                schedule1 = fst d;
                cur = snd d;
                rem1 = rem[cur := dsub (rem ! cur) 1];
                t1 = dadd t 1
            in if rem1 ! cur = 0
               then (t1, rem1, set_last_end t1 schedule1, None)
               else (t1, rem1, schedule1, Some cur))))"

text \<open>The loop: ticks while some process has time remaining.\<close>

partial_function (option) srtf_loop ::
  "process list \<Rightarrow> int \<Rightarrow> int list \<Rightarrow> segment list \<Rightarrow> nat option \<Rightarrow> segment list option" where
  "srtf_loop procs t rem schedule current =
     (if list_ex (\<lambda>r. r > 0) rem then
        (let st = srtf_tick procs (t, rem, schedule, current)
         in srtf_loop procs (fst st) (fst (snd st)) (fst (snd (snd st))) (snd (snd (snd st))))
      else Some schedule)"

declare srtf_loop.simps [code]

definition srtf :: "process list \<Rightarrow> segment list option" where
  "srtf processes = srtf_loop processes (min_arrival processes) (map burst processes) [] None"

subsection \<open>priorityNonPreemptive\<close>

text \<open>\<open>p.priority ?? 0\<close>\<close>

definition prio :: "process \<Rightarrow> int" where
  "prio p = (case priority p of None \<Rightarrow> 0 | Some v \<Rightarrow> v)"

partial_function (option) priority_loop ::
  "process list \<Rightarrow> int \<Rightarrow> string list \<Rightarrow> segment list \<Rightarrow> segment list option" where
  "priority_loop procs t done schedule =
     (if length done < length procs then
        (let ready = filter (\<lambda>p. arrival p \<le> t \<and> pid p \<notin> set done) procs in
         if ready = [] then priority_loop procs (dadd t 1) done schedule
         else
           (let p = hd (sort_key prio ready)
            in priority_loop procs (dadd t (burst p)) (set_add done (pid p))
                 (schedule @ [\<lparr>seg_pid = pid p, seg_start = t, seg_end = Some (dadd t (burst p))\<rparr>])))
      else Some schedule)"

declare priority_loop.simps [code]

definition priorityNonPreemptive :: "process list \<Rightarrow> segment list option" where
  "priorityNonPreemptive processes = priority_loop processes (min_arrival processes) [] []"

subsection \<open>roundRobin\<close>

text \<open>
  \<open>while (i < procs.length && procs[i].arrival <= t) { ready.push(procs[i]); i++; }\<close>
  The ready queue holds references to elements of the sorted list \<open>procs\<close>: positions.
\<close>

function rr_enqueue :: "process list \<Rightarrow> int \<Rightarrow> nat \<Rightarrow> nat list \<Rightarrow> nat list \<times> nat" where
  "rr_enqueue procs t i ready =
     (if i < length procs \<and> arrival (procs ! i) \<le> t
      then rr_enqueue procs t (i + 1) (ready @ [i])
      else (ready, i))"
  by pat_completeness auto
termination
  by (relation "measure (\<lambda>(procs, t, i, ready). length procs - i)") auto

declare rr_enqueue.simps [simp del]

text \<open>
  The main loop. With a quantum below 1 a ready process never finishes and the loop
  runs forever: the result is optional, \<open>None\<close> for no return.
\<close>

partial_function (option) rr_loop ::
  "process list \<Rightarrow> int \<Rightarrow> int \<Rightarrow> nat \<Rightarrow> nat list \<Rightarrow> int list \<Rightarrow> segment list \<Rightarrow> segment list option" where
  "rr_loop procs q t i ready rem schedule =
     (if ready \<noteq> [] \<or> i < length procs then
        (let e = rr_enqueue procs t i ready;
             ready1 = fst e;
             i1 = snd e
         in if ready1 = []
            then rr_loop procs q (if i1 < length procs then arrival (procs ! i1) else dadd t 1)
                   i1 ready1 rem schedule
            else
              (let p = hd ready1;
                   run = min q (rem ! p);
                   schedule1 = schedule @ [\<lparr>seg_pid = pid (procs ! p), seg_start = t, seg_end = Some (dadd t run)\<rparr>];
                   rem1 = rem[p := dsub (rem ! p) run];
                   t1 = dadd t run;
                   e1 = rr_enqueue procs t1 i1 (tl ready1);
                   ready2 = (if rem1 ! p > 0 then fst e1 @ [p] else fst e1)
               in rr_loop procs q t1 (snd e1) ready2 rem1 schedule1))
      else Some schedule)"

declare rr_loop.simps [code]

definition roundRobin :: "process list \<Rightarrow> int \<Rightarrow> segment list option" where
  "roundRobin processes quantum =
     (let procs = sort_key arrival processes;
          t = (case procs of [] \<Rightarrow> 0 | p # _ \<Rightarrow> arrival p)
      in rr_loop procs quantum t 0 [] (map burst procs) [])"

section \<open>Metrics (App.js, computeMetrics)\<close>

text \<open>
  One row of the metrics table. \<open>start\<close>, \<open>completion\<close> and \<open>response\<close> begin as
  \<open>null\<close>. The fields carry the prefix \<open>m_\<close>.
\<close>

record metrics =
  m_pid :: string
  m_arrival :: int
  m_burst :: int
  m_priority :: int
  m_start :: "int option"
  m_completion :: "int option"
  m_waiting :: int
  m_turnaround :: int
  m_response :: "int option"

text \<open>
  A JavaScript number that came out of a division: a quotient (kept exact here, the
  source rounds it to a double), an infinity, or \<open>NaN\<close>.
\<close>

datatype jsnumber = Num rat | PosInfinity | NegInfinity | NaN

definition js_div :: "int \<Rightarrow> int \<Rightarrow> jsnumber" where
  "js_div a b =
     (if b = 0 then (if a = 0 then NaN else if a > 0 then PosInfinity else NegInfinity)
      else Num (of_int a / of_int b))"

definition js_times100 :: "jsnumber \<Rightarrow> jsnumber" where
  "js_times100 x = (case x of Num r \<Rightarrow> Num (r * 100) | y \<Rightarrow> y)"

text \<open>The result \<open>{metrics, utilization, throughput}\<close>; the rows are \<open>metrics_rows\<close> here.\<close>

record metrics_result =
  metrics_rows :: "metrics list"
  utilization :: jsnumber
  throughput :: jsnumber

text \<open>The initial row \<open>processes.map(p => ({pid: p.pid, ..., response: null}))\<close>.\<close>

definition init_metrics :: "process \<Rightarrow> metrics" where
  "init_metrics p =
     \<lparr>m_pid = pid p, m_arrival = arrival p, m_burst = burst p, m_priority = prio p,
      m_start = None, m_completion = None, m_waiting = 0, m_turnaround = 0, m_response = None\<rparr>"

text \<open>
  \<open>mBy = Object.fromEntries(metrics.map(m => [m.pid, m]))\<close>: a later row with the same
  pid replaces an earlier one, so \<open>mBy[k]\<close> is the last row with pid \<open>k\<close> (its position).
\<close>

fun mBy :: "metrics list \<Rightarrow> string \<Rightarrow> nat option" where
  "mBy [] k = None"
| "mBy (m # ms) k =
     (case mBy ms k of
        Some j \<Rightarrow> Some (Suc j)
      | None \<Rightarrow> if m_pid m = k then Some 0 else None)"

text \<open>
  The body of \<open>for (const seg of schedule)\<close>:
  \<open>if (m) { if (m.start === null) m.start = seg.start; m.completion = seg.end; }\<close>
\<close>

definition note_segment :: "segment \<Rightarrow> metrics list \<Rightarrow> metrics list" where
  "note_segment seg ms =
     (case mBy ms (seg_pid seg) of
        None \<Rightarrow> ms
      | Some j \<Rightarrow>
          ms[j := (ms ! j)\<lparr>m_start := (if m_start (ms ! j) = None then Some (seg_start seg)
                                         else m_start (ms ! j)),
                            m_completion := seg_end seg\<rparr>])"

text \<open>The body of \<open>metrics.forEach(m => ...)\<close>.\<close>

definition finish_metrics :: "segment list \<Rightarrow> metrics \<Rightarrow> metrics" where
  "finish_metrics schedule m =
     (let turnaround = (case m_completion m of None \<Rightarrow> m_arrival m | Some c \<Rightarrow> c) - m_arrival m;
          ex = executed schedule (m_pid m)
      in m\<lparr>m_turnaround := turnaround,
            m_waiting := turnaround - ex,
            m_response := Some ((case m_start m of None \<Rightarrow> m_arrival m | Some c \<Rightarrow> c) - m_arrival m)\<rparr>)"

text \<open>
  \<open>lastEnd\<close> is \<open>schedule[schedule.length-1].end\<close>, which may be \<open>null\<close>; \<open>null === 0\<close>
  is false and \<open>null - firstStart\<close> is \<open>0 - firstStart\<close>.
\<close>

definition computeMetrics :: "segment list \<Rightarrow> process list \<Rightarrow> metrics_result" where
  "computeMetrics schedule processes =
     (let firstStart = (if schedule \<noteq> [] then seg_start (hd schedule) else 0);
          lastEnd = (if schedule \<noteq> [] then seg_end (last schedule) else Some 0);
          ms = fold note_segment schedule (map init_metrics processes);
          ms' = map (finish_metrics schedule) ms;
          totalBurst = sum_list (map burst processes)
      in \<lparr>metrics_rows = ms',
          utilization = (if lastEnd = Some 0 then Num 0
                         else js_times100 (js_div totalBurst (js_num lastEnd - firstStart))),
          throughput = (if lastEnd = Some 0 then Num 0
                        else js_div (int (length processes)) (js_num lastEnd - firstStart))\<rparr>)"

section \<open>Banker's safety check (App.js, isSafe)\<close>

text \<open>
  The entries of \<open>available\<close>, \<open>max\<close> and \<open>alloc\<close> are numbers holding integers,
  subtracted and added as doubles. Reading a row past its
  end gives \<open>undefined\<close>, and arithmetic on it gives \<open>NaN\<close>: a computed entry is an
  \<open>int option\<close> with \<open>None\<close> for \<open>NaN\<close>. Every comparison with \<open>NaN\<close> is false.
  Reading \<open>alloc[i][j]\<close> where the row \<open>alloc[i]\<close> is missing throws a \<open>TypeError\<close>.
\<close>

datatype js_error = TypeError

definition js_get :: "int list \<Rightarrow> nat \<Rightarrow> int option" where
  "js_get row j = (if j < length row then Some (row ! j) else None)"

definition js_sub :: "int option \<Rightarrow> int option \<Rightarrow> int option" where
  "js_sub a b = (case a of None \<Rightarrow> None | Some x \<Rightarrow> (case b of None \<Rightarrow> None | Some y \<Rightarrow> Some (dsub x y)))"

definition js_add :: "int option \<Rightarrow> int option \<Rightarrow> int option" where
  "js_add a b = (case a of None \<Rightarrow> None | Some x \<Rightarrow> (case b of None \<Rightarrow> None | Some y \<Rightarrow> Some (dadd x y)))"

definition js_gt :: "int option \<Rightarrow> int option \<Rightarrow> bool" where
  "js_gt a b = (case a of None \<Rightarrow> False | Some x \<Rightarrow> (case b of None \<Rightarrow> False | Some y \<Rightarrow> x > y))"

text \<open>The mutable variables of the search: \<open>work\<close>, \<open>finish\<close>, \<open>seq\<close> and \<open>progress\<close>.\<close>

record bk_state =
  bk_work :: "int option list"
  bk_finish :: "bool list"
  bk_seq :: "nat list"
  bk_progress :: bool

text \<open>
  \<open>let ok = true; for (let j=0; j<m; j++) if (need[i][j] > work[j]) { ok = false; break; }\<close>
  over the column indices \<open>0 .. m-1\<close>.
\<close>

fun row_ok :: "int option list \<Rightarrow> int option list \<Rightarrow> nat list \<Rightarrow> bool" where
  "row_ok need_i wk [] = True"
| "row_ok need_i wk (j # js) = (if js_gt (need_i ! j) (wk ! j) then False else row_ok need_i wk js)"

text \<open>\<open>for (let j=0; j<m; j++) work[j] += alloc[i][j]\<close>\<close>

fun release :: "int list \<Rightarrow> nat list \<Rightarrow> int option list \<Rightarrow> int option list" where
  "release alloc_i [] wk = wk"
| "release alloc_i (j # js) wk = release alloc_i js (wk[j := js_add (wk ! j) (js_get alloc_i j)])"

text \<open>One pass of \<open>for (let i=0; i<n; i++) if (!finish[i]) { ... }\<close> over the process indices.\<close>

fun scan_round :: "int option list list \<Rightarrow> int list list \<Rightarrow> nat \<Rightarrow> nat list \<Rightarrow> bk_state \<Rightarrow> bk_state" where
  "scan_round need alloc m [] st = st"
| "scan_round need alloc m (i # is) st =
     (if \<not> bk_finish st ! i then
        (if row_ok (need ! i) (bk_work st) [0..<m]
         then scan_round need alloc m is
                \<lparr>bk_work = release (alloc ! i) [0..<m] (bk_work st),
                 bk_finish = (bk_finish st)[i := True],
                 bk_seq = bk_seq st @ [i],
                 bk_progress = True\<rparr>
         else scan_round need alloc m is st)
      else scan_round need alloc m is st)"

definition unfinished :: "bool list \<Rightarrow> nat" where
  "unfinished fin = length (filter (\<lambda>b. \<not> b) fin)"

lemma unfinished_update: "unfinished (fin[i := True]) \<le> unfinished fin"
proof (induction fin arbitrary: i)
  case Nil
  then show ?case by (simp add: unfinished_def)
next
  case (Cons b fin)
  show ?case
  proof (cases i)
    case 0
    then show ?thesis by (simp add: unfinished_def)
  next
    case (Suc k)
    with Cons.IH [of k] show ?thesis by (simp add: unfinished_def)
  qed
qed

lemma unfinished_update_less:
  "i < length fin \<Longrightarrow> \<not> fin ! i \<Longrightarrow> unfinished (fin[i := True]) < unfinished fin"
proof (induction fin arbitrary: i)
  case Nil
  then show ?case by simp
next
  case (Cons b fin)
  show ?case
  proof (cases i)
    case 0
    with Cons.prems show ?thesis by (simp add: unfinished_def)
  next
    case (Suc k)
    with Cons.prems Cons.IH [of k] show ?thesis by (simp add: unfinished_def)
  qed
qed

lemma scan_round_length: "length (bk_finish (scan_round need alloc m is st)) = length (bk_finish st)"
  by (induction "is" arbitrary: st) simp_all

lemma scan_round_unfinished:
  "unfinished (bk_finish (scan_round need alloc m is st)) \<le> unfinished (bk_finish st)"
proof (induction "is" arbitrary: st)
  case Nil
  then show ?case by simp
next
  case (Cons i "is")
  let ?st' = "\<lparr>bk_work = release (alloc ! i) [0..<m] (bk_work st),
                 bk_finish = (bk_finish st)[i := True],
                 bk_seq = bk_seq st @ [i], bk_progress = True\<rparr>"
  have "unfinished (bk_finish (scan_round need alloc m is ?st')) \<le> unfinished (bk_finish ?st')"
    by (rule Cons.IH)
  also have "\<dots> \<le> unfinished (bk_finish st)" by (simp add: unfinished_update)
  finally show ?case using Cons.IH [of st] by simp
qed

lemma scan_round_progress:
  "\<forall>i \<in> set is. i < length (bk_finish st) \<Longrightarrow> \<not> bk_progress st
   \<Longrightarrow> bk_progress (scan_round need alloc m is st)
   \<Longrightarrow> unfinished (bk_finish (scan_round need alloc m is st)) < unfinished (bk_finish st)"
proof (induction "is" arbitrary: st)
  case Nil
  then show ?case by simp
next
  case (Cons i "is")
  let ?st' = "\<lparr>bk_work = release (alloc ! i) [0..<m] (bk_work st),
                 bk_finish = (bk_finish st)[i := True],
                 bk_seq = bk_seq st @ [i], bk_progress = True\<rparr>"
  show ?case
  proof (cases "\<not> bk_finish st ! i \<and> row_ok (need ! i) (bk_work st) [0..<m]")
    case True
    have "unfinished (bk_finish (scan_round need alloc m is ?st')) \<le> unfinished (bk_finish ?st')"
      by (rule scan_round_unfinished)
    also have "\<dots> < unfinished (bk_finish st)"
      using True Cons.prems(1) by (simp add: unfinished_update_less)
    finally show ?thesis using True by simp
  next
    case False
    then have eq: "scan_round need alloc m (i # is) st = scan_round need alloc m is st" by auto
    from Cons.prems have "unfinished (bk_finish (scan_round need alloc m is st)) < unfinished (bk_finish st)"
      unfolding eq by (intro Cons.IH) auto
    then show ?thesis unfolding eq .
  qed
qed

text \<open>
  \<open>let progress = true; while (progress) { progress = false; for (...) ... }\<close>: the body
  runs, and runs again while it finished some process. The indices are those of
  \<open>finish = Array(n).fill(false)\<close>, whose length is \<open>n\<close>.
\<close>

function isSafe_loop :: "int option list list \<Rightarrow> int list list \<Rightarrow> nat \<Rightarrow> bk_state \<Rightarrow> bk_state" where
  "isSafe_loop need alloc m st =
     (let st' = scan_round need alloc m [0..<length (bk_finish st)] (st\<lparr>bk_progress := False\<rparr>)
      in if bk_progress st' then isSafe_loop need alloc m st' else st')"
  by pat_completeness auto
termination
proof (relation "measure (\<lambda>(need, alloc, m, st). unfinished (bk_finish st))")
  show "wf (measure (\<lambda>(need, alloc, m, st). unfinished (bk_finish st)))" by simp
next
  fix need :: "int option list list" and alloc :: "int list list" and m :: nat
    and st x :: bk_state
  assume x: "x = scan_round need alloc m [0..<length (bk_finish st)] (st\<lparr>bk_progress := False\<rparr>)"
    and p: "bk_progress x"
  have "unfinished (bk_finish x) < unfinished (bk_finish (st\<lparr>bk_progress := False\<rparr>))"
    unfolding x by (rule scan_round_progress) (use p x in auto)
  then show "((need, alloc, m, x), (need, alloc, m, st))
      \<in> measure (\<lambda>(need, alloc, m, st). unfinished (bk_finish st))"
    by simp
qed

declare isSafe_loop.simps [simp del]

text \<open>The result \<open>{safe, sequence, need}\<close>.\<close>

record safety =
  safe :: bool
  sequence :: "nat list"
  need :: "int option list list"

text \<open>
  \<open>n = max.length\<close>, \<open>m = available.length\<close>. Building \<open>need\<close> reads \<open>alloc[i][j]\<close> for
  every \<open>i < n\<close> and \<open>j < m\<close>: with \<open>m > 0\<close> and fewer than \<open>n\<close> rows in \<open>alloc\<close> it throws
  before the search starts. The source's parameter \<open>max\<close> is called \<open>maxm\<close> here.
\<close>

definition isSafe :: "int list \<Rightarrow> int list list \<Rightarrow> int list list \<Rightarrow> js_error + safety" where
  "isSafe available maxm alloc =
     (let n = length maxm; m = length available in
      if m > 0 \<and> length alloc < n then Inl TypeError
      else
        (let needm = map (\<lambda>i. map (\<lambda>j. js_sub (js_get (maxm ! i) j) (js_get (alloc ! i) j)) [0..<m]) [0..<n];
             st = isSafe_loop needm alloc m
                    \<lparr>bk_work = map Some available, bk_finish = replicate n False,
                     bk_seq = [], bk_progress = True\<rparr>;
             sf = list_all (\<lambda>f. f) (bk_finish st)
         in Inr \<lparr>safe = sf, sequence = (if sf then bk_seq st else []), need = needm\<rparr>))"

section \<open>Empty input\<close>

text \<open>
  Claim C8. On the empty process list each of the five scheduling functions returns the
  empty schedule (for \<open>roundRobin\<close> whatever the quantum), and \<open>computeMetrics\<close> on
  the empty schedule and the empty process list returns no rows, utilization 0 and
  throughput 0: the \<open>lastEnd === 0\<close> guard answers before any division.
\<close>

theorem empty_input_C8:
  "fcfs [] = [] \<and> sjf [] = Some [] \<and> srtf [] = Some [] \<and> priorityNonPreemptive [] = Some []
   \<and> roundRobin [] quantum = Some []
   \<and> computeMetrics [] [] = \<lparr>metrics_rows = [], utilization = Num 0, throughput = Num 0\<rparr>"
proof -
  have a: "fcfs [] = []" by (simp add: fcfs_def)
  have b: "sjf [] = Some []" by (simp add: sjf_def sjf_loop.simps)
  have c: "srtf [] = Some []" by (simp add: srtf_def srtf_loop.simps)
  have d: "priorityNonPreemptive [] = Some []"
    by (simp add: priorityNonPreemptive_def priority_loop.simps)
  have e: "roundRobin [] quantum = Some []" by (simp add: roundRobin_def rr_loop.simps)
  have f: "computeMetrics [] [] = \<lparr>metrics_rows = [], utilization = Num 0, throughput = Num 0\<rparr>"
    by (simp add: computeMetrics_def)
  from a b c d e f show ?thesis by simp
qed

section \<open>The reference trace of the page replacement policies\<close>

text \<open>
  Claim C4, as stated, gives 9 faults to FIFO and 10 to LRU on the reference string
  7 0 1 2 0 3 0 4 2 3 0 3 2 with 3 frames. The functions report neither number.
\<close>

theorem page_trace_counterexample_C4:
  "faults (fifoPage [7, 0, 1, 2, 0, 3, 0, 4, 2, 3, 0, 3, 2] 3) \<noteq> 9
   \<and> faults (lruPage [7, 0, 1, 2, 0, 3, 0, 4, 2, 3, 0, 3, 2] 3) \<noteq> 10"
  by code_simp

text \<open>
  Claim C4, amended. On that reference string with 3 frames \<open>fifoPage\<close> reports exactly
  10 faults and \<open>lruPage\<close> exactly 9, and the snapshots and hit flags of every step are
  those of the hand simulation: FIFO overwrites the slot under the circular pointer on
  each fault, LRU fills the slots in order and then overwrites the page used longest ago.
\<close>

theorem page_trace_C4:
  "faults (fifoPage [7, 0, 1, 2, 0, 3, 0, 4, 2, 3, 0, 3, 2] 3) = 10
   \<and> map ts_frames (timeline (fifoPage [7, 0, 1, 2, 0, 3, 0, 4, 2, 3, 0, 3, 2] 3)) =
       [[Some 7, None, None], [Some 7, Some 0, None], [Some 7, Some 0, Some 1],
        [Some 2, Some 0, Some 1], [Some 2, Some 0, Some 1], [Some 2, Some 3, Some 1],
        [Some 2, Some 3, Some 0], [Some 4, Some 3, Some 0], [Some 4, Some 2, Some 0],
        [Some 4, Some 2, Some 3], [Some 0, Some 2, Some 3], [Some 0, Some 2, Some 3],
        [Some 0, Some 2, Some 3]]
   \<and> map ts_hit (timeline (fifoPage [7, 0, 1, 2, 0, 3, 0, 4, 2, 3, 0, 3, 2] 3)) =
       [False, False, False, False, True, False, False, False, False, False, False, True, True]
   \<and> faults (lruPage [7, 0, 1, 2, 0, 3, 0, 4, 2, 3, 0, 3, 2] 3) = 9
   \<and> map ts_frames (timeline (lruPage [7, 0, 1, 2, 0, 3, 0, 4, 2, 3, 0, 3, 2] 3)) =
       [[Some 7, None, None], [Some 7, Some 0, None], [Some 7, Some 0, Some 1],
        [Some 2, Some 0, Some 1], [Some 2, Some 0, Some 1], [Some 2, Some 0, Some 3],
        [Some 2, Some 0, Some 3], [Some 4, Some 0, Some 3], [Some 4, Some 0, Some 2],
        [Some 4, Some 3, Some 2], [Some 0, Some 3, Some 2], [Some 0, Some 3, Some 2],
        [Some 0, Some 3, Some 2]]
   \<and> map ts_hit (timeline (lruPage [7, 0, 1, 2, 0, 3, 0, 4, 2, 3, 0, 3, 2] 3)) =
       [False, False, False, False, True, False, True, False, False, False, False, True, True]"
  by code_simp

section \<open>The disk paths visit the requests\<close>

lemma pathSSTF_loop_prefix: "pathSSTF_loop q cur (p1 @ p2) = p1 @ pathSSTF_loop q cur p2"
proof (induction q cur p2 arbitrary: p1 rule: pathSSTF_loop.induct)
  case (1 q cur path)
  show ?case
  proof (cases "q = []")
    case True
    then show ?thesis by (simp add: pathSSTF_loop.simps)
  next
    case False
    let ?idx = "sstf_pick cur q"
    let ?c = "q ! ?idx"
    have a: "pathSSTF_loop q cur (p1 @ path) = pathSSTF_loop (splice1 q ?idx) ?c (p1 @ (path @ [?c]))"
      using False by (subst pathSSTF_loop.simps) (simp add: Let_def)
    have b: "pathSSTF_loop q cur path = pathSSTF_loop (splice1 q ?idx) ?c (path @ [?c])"
      using False by (subst pathSSTF_loop.simps) (simp add: Let_def)
    have c: "pathSSTF_loop (splice1 q ?idx) ?c (p1 @ (path @ [?c]))
              = p1 @ pathSSTF_loop (splice1 q ?idx) ?c (path @ [?c])"
      using False by (intro "1.IH") simp_all
    from a b c show ?thesis by simp
  qed
qed

lemma pathSSTF_loop_append: "pathSSTF_loop q cur path = path @ pathSSTF_loop q cur []"
  using pathSSTF_loop_prefix [of q cur path "[]"] by simp

lemma pathSSTF_step:
  "q \<noteq> [] \<Longrightarrow> pathSSTF q head = head # pathSSTF (splice1 q (sstf_pick head q)) (q ! sstf_pick head q)"
proof -
  assume ne: "q \<noteq> []"
  let ?idx = "sstf_pick head q"
  have "pathSSTF q head = [head] @ pathSSTF_loop q head []"
    unfolding pathSSTF_def by (rule pathSSTF_loop_append)
  also have "pathSSTF_loop q head [] = pathSSTF_loop (splice1 q ?idx) (q ! ?idx) [q ! ?idx]"
    using ne by (subst pathSSTF_loop.simps) (simp add: Let_def)
  finally show ?thesis by (simp add: pathSSTF_def)
qed

lemma mset_splice1: "i < length q \<Longrightarrow> add_mset (q ! i) (mset (splice1 q i)) = mset q"
proof -
  assume i: "i < length q"
  then have "q = take i q @ q ! i # drop (Suc i) q" by (simp add: id_take_nth_drop)
  then have "mset q = mset (take i q @ q ! i # drop (Suc i) q)" by simp
  then show ?thesis by (simp add: splice1_def)
qed

lemma mset_pathSSTF_loop: "mset (pathSSTF_loop q cur path) = mset path + mset q"
proof (induction q cur path rule: pathSSTF_loop.induct)
  case (1 q cur path)
  show ?case
  proof (cases "q = []")
    case True
    then show ?thesis by (simp add: pathSSTF_loop.simps)
  next
    case False
    let ?idx = "sstf_pick cur q"
    have lt: "?idx < length q" using False by (rule sstf_pick_less)
    have "pathSSTF_loop q cur path = pathSSTF_loop (splice1 q ?idx) (q ! ?idx) (path @ [q ! ?idx])"
      using False by (subst pathSSTF_loop.simps) (simp add: Let_def)
    also have "mset \<dots> = mset (path @ [q ! ?idx]) + mset (splice1 q ?idx)"
      using False by (intro "1.IH") simp_all
    also have "\<dots> = mset path + add_mset (q ! ?idx) (mset (splice1 q ?idx))" by simp
    also have "\<dots> = mset path + mset q" using lt by (simp only: mset_splice1)
    finally show ?thesis .
  qed
qed

lemma hd_pathSSTF: "hd (pathSSTF q head) = head"
  unfolding pathSSTF_def by (subst pathSSTF_loop_append) simp

lemma tl_pathSSTF: "mset (tl (pathSSTF q head)) = mset q"
proof -
  have "pathSSTF q head = [head] @ pathSSTF_loop q head []"
    unfolding pathSSTF_def by (rule pathSSTF_loop_append)
  then have "tl (pathSSTF q head) = pathSSTF_loop q head []" by simp
  then show ?thesis by (simp add: mset_pathSSTF_loop)
qed

lemma mset_split_filter: "mset (filter (\<lambda>x. x \<ge> (h::int)) q) + mset (filter (\<lambda>x. x < h) q) = mset q"
proof -
  have "(\<lambda>x. x < h) = (\<lambda>x. \<not> h \<le> x)" by auto
  then show ?thesis by simp
qed

lemma count_list_distinct: "distinct xs \<Longrightarrow> c \<in> set xs \<Longrightarrow> count (mset xs) c = 1"
  by (simp add: distinct_count_atmost_1)

text \<open>
  Claim C5, as stated, has every requested cylinder exactly once in the path, for every
  head position. The path starts with the head position itself, so a request at the
  head's cylinder is in the path twice; and \<open>pathSCAN\<close> and \<open>pathCSCAN\<close> insert the
  boundary whether or not it is requested, so a request at the boundary is there twice.
\<close>

theorem disk_paths_counterexample_C5:
  "distinct [98, 53 :: int] \<and> list_all (\<lambda>c. 0 \<le> c \<and> c \<le> 199) [98, 53 :: int]
   \<and> count_list (pathFCFS [98, 53] 53) 53 = 2
   \<and> count_list (pathSSTF [98, 53] 53) 53 = 2
   \<and> distinct [199 :: int] \<and> list_all (\<lambda>c. 0 \<le> c \<and> c \<le> 199) [199 :: int]
   \<and> count_list (pathSCAN [199] 53 199) 199 = 2
   \<and> count_list (pathCSCAN [199] 53 199) 199 = 2"
  by code_simp

text \<open>
  Claim C5, amended. Each path starts with the head position, and what follows the
  head is a rearrangement of the request queue: exactly the queue for \<open>pathFCFS\<close> and
  \<open>pathSSTF\<close>, the queue and one more entry \<open>max\<close> for \<open>pathSCAN\<close>, the queue and the
  two entries \<open>max\<close> and 0 for \<open>pathCSCAN\<close>. So for distinct requests every requested
  cylinder appears exactly once after the head, the inserted boundary entries aside.
\<close>

theorem disk_paths_C5:
  "hd (pathFCFS queue head) = head \<and> hd (pathSSTF queue head) = head
   \<and> hd (pathSCAN queue head maxc) = head \<and> hd (pathCSCAN queue head maxc) = head
   \<and> mset (tl (pathFCFS queue head)) = mset queue
   \<and> mset (tl (pathSSTF queue head)) = mset queue
   \<and> mset (tl (pathSCAN queue head maxc)) = mset queue + {#maxc#}
   \<and> mset (tl (pathCSCAN queue head maxc)) = mset queue + {#maxc, 0#}
   \<and> (distinct queue \<longrightarrow>
        (\<forall>c \<in> set queue.
           count_list (tl (pathFCFS queue head)) c = 1
         \<and> count_list (tl (pathSSTF queue head)) c = 1
         \<and> count (mset (tl (pathSCAN queue head maxc)) - {#maxc#}) c = 1
         \<and> count (mset (tl (pathCSCAN queue head maxc)) - {#maxc, 0#}) c = 1))"
proof -
  have hds: "hd (pathFCFS queue head) = head \<and> hd (pathSSTF queue head) = head
     \<and> hd (pathSCAN queue head maxc) = head \<and> hd (pathCSCAN queue head maxc) = head"
    by (simp add: pathFCFS_def hd_pathSSTF pathSCAN_def pathCSCAN_def)
  have f: "mset (tl (pathFCFS queue head)) = mset queue" by (simp add: pathFCFS_def)
  have s: "mset (tl (pathSSTF queue head)) = mset queue" by (rule tl_pathSSTF)
  have sc: "mset (tl (pathSCAN queue head maxc)) = mset queue + {#maxc#}"
    using mset_split_filter [of head queue] by (simp add: pathSCAN_def)
  have cs: "mset (tl (pathCSCAN queue head maxc)) = mset queue + {#maxc, 0#}"
    using mset_split_filter [of head queue] by (simp add: pathCSCAN_def)
  have d: "count_list (tl (pathFCFS queue head)) c = 1
         \<and> count_list (tl (pathSSTF queue head)) c = 1
         \<and> count (mset (tl (pathSCAN queue head maxc)) - {#maxc#}) c = 1
         \<and> count (mset (tl (pathCSCAN queue head maxc)) - {#maxc, 0#}) c = 1"
    if "distinct queue" and "c \<in> set queue" for c
  proof -
    have one: "count (mset queue) c = 1" using that by (rule count_list_distinct)
    have "count_list (tl (pathFCFS queue head)) c = count (mset (tl (pathFCFS queue head))) c"
      by (simp only: count_mset)
    then have c1: "count_list (tl (pathFCFS queue head)) c = 1" using one by (simp only: f)
    have "count_list (tl (pathSSTF queue head)) c = count (mset (tl (pathSSTF queue head))) c"
      by (simp only: count_mset)
    then have c2: "count_list (tl (pathSSTF queue head)) c = 1" using one by (simp only: s)
    have c3: "count (mset (tl (pathSCAN queue head maxc)) - {#maxc#}) c = 1"
      using one by (simp only: sc) simp
    have c4: "count (mset (tl (pathCSCAN queue head maxc)) - {#maxc, 0#}) c = 1"
      using one by (simp only: cs) simp
    from c1 c2 c3 c4 show ?thesis by simp
  qed
  from hds f s sc cs d show ?thesis by blast
qed

theorem disk_paths_C5_witness:
  "distinct [98, 183, 37 :: int]
   \<and> hd (pathSSTF [98, 183, 37] 53) = 53
   \<and> mset (tl (pathSSTF [98, 183, 37] 53)) = mset [98, 183, 37]
   \<and> mset (tl (pathSCAN [98, 183, 37] 53 199)) = mset [98, 183, 37] + {#199#}
   \<and> count_list (tl (pathSSTF [98, 183, 37] 53)) 37 = 1
   \<and> count (mset (tl (pathCSCAN [98, 183, 37] 53 199)) - {#199, 0#}) 183 = 1"
  using disk_paths_C5 [of "[98, 183, 37]" 53 199] by simp

section \<open>The tie-break of SSTF\<close>

text \<open>
  The position \<open>idx\<close> is the first one of \<open>q\<close> at the least distance from \<open>cur\<close>: no
  request is nearer, and every request before it is strictly farther.
\<close>

definition first_nearest :: "int \<Rightarrow> int list \<Rightarrow> nat \<Rightarrow> bool" where
  "first_nearest cur q idx \<longleftrightarrow>
     idx < length q
     \<and> (\<forall>k < length q. \<bar>q ! idx - cur\<bar> \<le> \<bar>q ! k - cur\<bar>)
     \<and> (\<forall>k < idx. \<bar>q ! idx - cur\<bar> < \<bar>q ! k - cur\<bar>)"

lemma sstf_scan_first_nearest:
  assumes "sstf_scan cur vs i (idx, best) = (idx', best')"
    and "q = pre @ vs" and "length pre = i" and "q \<noteq> []"
    and "best = None \<longrightarrow> pre = []"
    and "\<forall>b. best = Some b \<longrightarrow> b = \<bar>q ! idx - cur\<bar> \<and> first_nearest cur pre idx"
    and "\<forall>v \<in> set q. \<bar>v - cur\<bar> \<le> 2 ^ 53"
  shows "first_nearest cur q idx'"
  using assms
proof (induction vs arbitrary: i idx best pre)
  case Nil
  then show ?case by (cases best) auto
next
  case (Cons v vs)
  have qi: "q ! i = v" using Cons.prems(2,3) by (simp add: nth_append)
  have pre_nth: "\<And>k. k < i \<Longrightarrow> (pre @ [v]) ! k = q ! k \<and> pre ! k = q ! k"
    using Cons.prems(2,3) by (simp add: nth_append)
  let ?d = "\<bar>v - cur\<bar>"
  have "v \<in> set q" using Cons.prems(2) by simp
  then have dv: "dsub v cur = v - cur" using Cons.prems(7) by (intro dsub_exact) simp
  show ?case
  proof (cases "case best of None \<Rightarrow> True | Some b \<Rightarrow> ?d < b")
    case True
    have step: "sstf_scan cur vs (i + 1) (i, Some ?d) = (idx', best')"
      using Cons.prems(1) True by (simp add: Let_def dv)
    have fn: "first_nearest cur (pre @ [v]) i"
    proof (cases best)
      case None
      with Cons.prems(3,5) show ?thesis by (simp add: first_nearest_def)
    next
      case (Some b)
      with True have lt: "?d < b" by simp
      from Some Cons.prems(6) have b: "b = \<bar>q ! idx - cur\<bar>" and f: "first_nearest cur pre idx"
        by simp_all
      have "\<And>k. k < i \<Longrightarrow> b \<le> \<bar>pre ! k - cur\<bar>"
        using f b pre_nth Cons.prems(3) by (auto simp: first_nearest_def)
      then have "\<And>k. k < i \<Longrightarrow> ?d < \<bar>(pre @ [v]) ! k - cur\<bar>"
        using lt Cons.prems(3) by (fastforce simp: nth_append)
      then show ?thesis using Cons.prems(3)
        by (auto simp: first_nearest_def nth_append less_Suc_eq dest: order.strict_implies_order)
    qed
    show ?thesis
    proof (rule Cons.IH [OF step, of "pre @ [v]"])
      show "q = (pre @ [v]) @ vs" using Cons.prems(2) by simp
      show "length (pre @ [v]) = i + 1" using Cons.prems(3) by simp
      show "q \<noteq> []" by (rule Cons.prems(4))
      show "Some ?d = None \<longrightarrow> pre @ [v] = []" by simp
      show "\<forall>b. Some ?d = Some b \<longrightarrow> b = \<bar>q ! i - cur\<bar> \<and> first_nearest cur (pre @ [v]) i"
        using fn qi by simp
      show "\<forall>v \<in> set q. \<bar>v - cur\<bar> \<le> 2 ^ 53" by (rule Cons.prems(7))
    qed
  next
    case False
    then obtain b where Some: "best = Some b" and ge: "b \<le> ?d" by (cases best) auto
    have step: "sstf_scan cur vs (i + 1) (idx, best) = (idx', best')"
      using Cons.prems(1) False by (simp add: Let_def dv)
    from Some Cons.prems(6) have b: "b = \<bar>q ! idx - cur\<bar>" and f: "first_nearest cur pre idx"
      by simp_all
    have idx: "idx < i" using f Cons.prems(3) by (simp add: first_nearest_def)
    have fn: "first_nearest cur (pre @ [v]) idx"
      using f ge b idx Cons.prems(3) pre_nth [OF idx]
      by (auto simp: first_nearest_def nth_append less_Suc_eq)
    show ?thesis
    proof (rule Cons.IH [OF step, of "pre @ [v]"])
      show "q = (pre @ [v]) @ vs" using Cons.prems(2) by simp
      show "length (pre @ [v]) = i + 1" using Cons.prems(3) by simp
      show "q \<noteq> []" by (rule Cons.prems(4))
      show "best = None \<longrightarrow> pre @ [v] = []" using Some by simp
      show "\<forall>b. best = Some b \<longrightarrow> b = \<bar>q ! idx - cur\<bar> \<and> first_nearest cur (pre @ [v]) idx"
        using fn b Some by simp
      show "\<forall>v \<in> set q. \<bar>v - cur\<bar> \<le> 2 ^ 53" by (rule Cons.prems(7))
    qed
  qed
qed

lemma sstf_pick_first_nearest:
  "q \<noteq> [] \<Longrightarrow> \<forall>v \<in> set q. \<bar>v - cur\<bar> \<le> 2 ^ 53 \<Longrightarrow> first_nearest cur q (sstf_pick cur q)"
proof -
  assume ne: "q \<noteq> []" and near: "\<forall>v \<in> set q. \<bar>v - cur\<bar> \<le> 2 ^ 53"
  obtain a b where ab: "sstf_scan cur q 0 (0, None) = (a, b)"
    by (cases "sstf_scan cur q 0 (0, None)")
  have "first_nearest cur q a"
    by (rule sstf_scan_first_nearest [OF ab, of q "[]"]) (use ne near in simp_all)
  with ab show ?thesis by (simp add: sstf_pick_def)
qed

text \<open>
  Claim C6, as stated, lets the lower cylinder win a tie. With the head at 53 the
  requests 55 and 51 are both 2 away; 55 comes first in the queue and is visited first.
\<close>

theorem sstf_tie_counterexample_C6:
  "\<bar>55 - 53\<bar> = \<bar>51 - (53 :: int)\<bar> \<and> pathSSTF [55, 51] 53 = [53, 55, 51]"
  by code_simp

text \<open>
  Claim C6, amended. In \<open>pathSSTF\<close>, with every unvisited request within \<open>2^53\<close> of the
  current position (the distances are then computed exactly), the request visited next
  is the first one in queue order among the unvisited requests nearest to the current
  position: of two equidistant nearest requests the one earlier in the queue is visited
  first. The path is the current position followed by the path from that request over
  the queue without it.
\<close>

theorem sstf_tie_C6:
  "q \<noteq> [] \<Longrightarrow> \<forall>v \<in> set q. \<bar>v - cur\<bar> \<le> 2 ^ 53 \<Longrightarrow>
     first_nearest cur q (sstf_pick cur q)
     \<and> pathSSTF q cur = cur # pathSSTF (splice1 q (sstf_pick cur q)) (q ! sstf_pick cur q)"
  by (simp add: sstf_pick_first_nearest pathSSTF_step [symmetric])

theorem sstf_tie_C6_witness:
  "[55, 51 :: int] \<noteq> [] \<and> list_all (\<lambda>v. \<bar>v - 53\<bar> \<le> 2 ^ 53) [55, 51 :: int]
   \<and> sstf_pick 53 [55, 51] = 0 \<and> first_nearest 53 [55, 51] 0
   \<and> pathSSTF [55, 51] 53 = 53 # pathSSTF [51] 55"
proof -
  have p: "sstf_pick 53 [55, 51] = 0" by code_simp
  have s: "splice1 [55, 51 :: int] 0 = [51]" by (simp add: splice1_def)
  have ne: "[55, 51 :: int] \<noteq> []" by simp
  have near: "\<forall>v \<in> set [55, 51 :: int]. \<bar>v - 53\<bar> \<le> 2 ^ 53" by simp
  from sstf_tie_C6 [OF ne near] p s near show ?thesis by simp
qed

section \<open>The timeline and the fault counter agree\<close>










section \<open>Processes that never ran\<close>

lemma mBy_Some: "mBy ms k = Some j \<Longrightarrow> j < length ms \<and> m_pid (ms ! j) = k"
proof (induction ms arbitrary: j)
  case Nil
  then show ?case by simp
next
  case (Cons m ms)
  show ?case
  proof (cases "mBy ms k")
    case None
    with Cons.prems show ?thesis by (simp split: if_splits)
  next
    case (Some j')
    with Cons.prems Cons.IH [OF Some] show ?thesis by auto
  qed
qed


lemma note_segment_pid: "map m_pid (note_segment seg ms) = map m_pid ms"
proof (cases "mBy ms (seg_pid seg)")
  case None
  then show ?thesis by (simp add: note_segment_def)
next
  case (Some j)
  from mBy_Some [OF Some] have "j < length ms" by simp
  then show ?thesis using Some
    by (simp add: note_segment_def list_eq_iff_nth_eq nth_list_update)
qed






section \<open>The selection of SRTF\<close>

text \<open>
  Position \<open>k\<close> is the first one of \<open>procs\<close> holding an arrived, unfinished process of
  least remaining time: no such process has less remaining, and every such process
  before \<open>k\<close> has strictly more.
\<close>

definition first_shortest :: "process list \<Rightarrow> int \<Rightarrow> int list \<Rightarrow> nat \<Rightarrow> bool" where
  "first_shortest procs t rem k \<longleftrightarrow>
     k < length procs \<and> arrival (procs ! k) \<le> t \<and> 0 < rem ! k
     \<and> (\<forall>i < length procs. arrival (procs ! i) \<le> t \<and> 0 < rem ! i \<longrightarrow> rem ! k \<le> rem ! i)
     \<and> (\<forall>i < k. arrival (procs ! i) \<le> t \<and> 0 < rem ! i \<longrightarrow> rem ! k < rem ! i)"

lemma hd_insort_key:
  "hd (insort_key f x ys) = (if ys = [] \<or> f x \<le> f (hd ys) then x else hd ys)"
  by (cases ys) simp_all

lemma hd_sort_key_split:
  fixes f :: "'a \<Rightarrow> int"
  shows "xs \<noteq> [] \<Longrightarrow>
    \<exists>pre post. xs = pre @ hd (sort_key f xs) # post
      \<and> (\<forall>y \<in> set pre. f (hd (sort_key f xs)) < f y)
      \<and> (\<forall>y \<in> set post. f (hd (sort_key f xs)) \<le> f y)"
proof (induction xs)
  case Nil
  then show ?case by simp
next
  case (Cons x xs)
  show ?case
  proof (cases "xs = []")
    case True
    show ?thesis unfolding True
      by (rule exI [of _ "[]"], rule exI [of _ "[]"]) simp
  next
    case False
    let ?h = "hd (sort_key f xs)"
    from Cons.IH [OF False] obtain pre post where
      xs: "xs = pre @ ?h # post" and pre: "\<forall>y \<in> set pre. f ?h < f y"
      and post: "\<forall>y \<in> set post. f ?h \<le> f y"
      by blast
    have ne: "sort_key f xs \<noteq> []" using False by (metis length_sort length_0_conv)
    have all: "\<forall>y \<in> set xs. f ?h \<le> f y"
    proof
      fix y assume "y \<in> set xs"
      then have "y \<in> set pre \<or> y = ?h \<or> y \<in> set post" by (subst (asm) xs) auto
      then show "f ?h \<le> f y" using pre post by auto
    qed
    show ?thesis
    proof (cases "f x \<le> f ?h")
      case True
      then have hd: "hd (sort_key f (x # xs)) = x" by (simp add: hd_insort_key)
      have "x # xs = [] @ x # xs \<and> (\<forall>y \<in> set []. f x < f y) \<and> (\<forall>y \<in> set xs. f x \<le> f y)"
        using all True by auto
      then show ?thesis unfolding hd by blast
    next
      case f: False
      then have hd: "hd (sort_key f (x # xs)) = ?h" using ne by (simp add: hd_insort_key)
      have "x # xs = (x # pre) @ ?h # post" using xs by simp
      moreover have "\<forall>y \<in> set (x # pre). f ?h < f y" using pre f by auto
      ultimately show ?thesis unfolding hd using post by blast
    qed
  qed
qed

lemma srtf_ready_set:
  "set (srtf_ready procs t rem) = {i. i < length procs \<and> arrival (procs ! i) \<le> t \<and> 0 < rem ! i}"
  by (auto simp: srtf_ready_def)

lemma srtf_next_first_shortest:
  assumes "srtf_ready procs t rem \<noteq> []"
  shows "first_shortest procs t rem (srtf_next rem (srtf_ready procs t rem))"
proof -
  let ?ready = "srtf_ready procs t rem"
  let ?k = "srtf_next rem ?ready"
  from hd_sort_key_split [OF assms, of "\<lambda>i. rem ! i"] obtain pre post where
    split: "?ready = pre @ ?k # post" and pre: "\<forall>y \<in> set pre. rem ! ?k < rem ! y"
    and post: "\<forall>y \<in> set post. rem ! ?k \<le> rem ! y"
    unfolding srtf_next_def by blast
  have k_in: "?k \<in> set ?ready" by (subst split) simp
  have sorted: "sorted ?ready"
    unfolding srtf_ready_def by (rule sorted_wrt_filter) simp
  have dist: "distinct ?ready"
    by (simp add: srtf_ready_def)
  have post_gt: "\<forall>y \<in> set post. ?k < y"
  proof
    fix y assume y: "y \<in> set post"
    from sorted have "sorted (pre @ ?k # post)" by (simp only: split [symmetric])
    then have "?k \<le> y" using y by (auto simp: sorted_append)
    moreover from dist have "distinct (pre @ ?k # post)" by (simp only: split [symmetric])
    then have "?k \<noteq> y" using y by auto
    ultimately show "?k < y" by simp
  qed
  have least: "rem ! ?k \<le> rem ! i" if "i \<in> set ?ready" for i
  proof -
    from that have "i \<in> set pre \<or> i = ?k \<or> i \<in> set post" by (subst (asm) split) auto
    then show ?thesis using pre post by auto
  qed
  have before: "rem ! ?k < rem ! i" if "i \<in> set ?ready" and "i < ?k" for i
  proof -
    from that(1) have "i \<in> set pre \<or> i = ?k \<or> i \<in> set post" by (subst (asm) split) auto
    then show ?thesis using pre post_gt that(2) by auto
  qed
  from k_in least before show ?thesis
    unfolding first_shortest_def srtf_ready_set by auto
qed

lemma first_shortest_unique:
  "first_shortest procs t rem k \<Longrightarrow> first_shortest procs t rem c \<Longrightarrow> k = c"
proof (rule ccontr)
  assume k: "first_shortest procs t rem k" and c: "first_shortest procs t rem c" and ne: "k \<noteq> c"
  then consider "k < c" | "c < k" by linarith
  then show False
  proof cases
    case 1
    with k c have "rem ! c < rem ! k" "rem ! k \<le> rem ! c" by (auto simp: first_shortest_def)
    then show False by simp
  next
    case 2
    with k c have "rem ! k < rem ! c" "rem ! c \<le> rem ! k" by (auto simp: first_shortest_def)
    then show False by simp
  qed
qed

section \<open>The safety check against its description\<close>

text \<open>
  The check as the specification words it, on integer matrices of matching dimensions.
  \<open>need[i][j] = max[i][j] - allocation[i][j]\<close>:
\<close>

definition need_of :: "int list list \<Rightarrow> int list list \<Rightarrow> int list list" where
  "need_of maxm alloc = map2 (map2 (-)) maxm alloc"

text \<open>A process is finishable when \<open>need[i][j] \<le> work[j]\<close> for every resource type.\<close>

definition finishable :: "int list \<Rightarrow> int list \<Rightarrow> bool" where
  "finishable need_i wk \<longleftrightarrow> list_all2 (\<le>) need_i wk"

text \<open>
  One round over the processes: an unfinished, finishable process finishes, its
  allocation is added to \<open>work\<close>, and it is recorded. The state is \<open>work\<close> and the
  processes finished so far, in finish order.
\<close>

fun spec_round ::
  "int list list \<Rightarrow> int list list \<Rightarrow> nat list \<Rightarrow> int list \<times> nat list \<Rightarrow> int list \<times> nat list" where
  "spec_round nd alloc [] (wk, fin) = (wk, fin)"
| "spec_round nd alloc (i # is) (wk, fin) =
     (if i \<notin> set fin \<and> finishable (nd ! i) wk
      then spec_round nd alloc is (map2 (+) wk (alloc ! i), fin @ [i])
      else spec_round nd alloc is (wk, fin))"

lemma spec_round_added:
  "spec_round nd alloc is (wk, fin) = (wk', fin') \<Longrightarrow>
     \<exists>added. fin' = fin @ added \<and> set added \<subseteq> set is \<and> set added \<inter> set fin = {}
       \<and> (distinct fin \<longrightarrow> distinct fin')"
proof (induction "is" arbitrary: wk fin)
  case Nil
  then show ?case by simp
next
  case (Cons i "is")
  show ?case
  proof (cases "i \<notin> set fin \<and> finishable (nd ! i) wk")
    case True
    with Cons.prems have "spec_round nd alloc is (map2 (+) wk (alloc ! i), fin @ [i]) = (wk', fin')"
      by simp
    from Cons.IH [OF this] obtain added where
      a: "fin' = (fin @ [i]) @ added" "set added \<subseteq> set is"
         "set added \<inter> set (fin @ [i]) = {}" "distinct (fin @ [i]) \<longrightarrow> distinct fin'"
      by blast
    have "fin' = fin @ (i # added) \<and> set (i # added) \<subseteq> set (i # is)
        \<and> set (i # added) \<inter> set fin = {} \<and> (distinct fin \<longrightarrow> distinct fin')"
      using a True by auto
    then show ?thesis by blast
  next
    case False
    with Cons.prems have "spec_round nd alloc is (wk, fin) = (wk', fin')" by auto
    from Cons.IH [OF this] obtain added where
      "fin' = fin @ added" "set added \<subseteq> set is" "set added \<inter> set fin = {}"
      "distinct fin \<longrightarrow> distinct fin'"
      by blast
    then have "fin' = fin @ added \<and> set added \<subseteq> set (i # is)
        \<and> set added \<inter> set fin = {} \<and> (distinct fin \<longrightarrow> distinct fin')"
      by auto
    then show ?thesis by blast
  qed
qed

lemma spec_round_progress:
  assumes "spec_round nd alloc [0..<n] (wk, fin) = (wk', fin')" and "length fin < length fin'"
  shows "card ({0..<n} - set fin') < card ({0..<n} - set fin)"
proof -
  from spec_round_added [OF assms(1)] obtain added where
    a: "fin' = fin @ added" "set added \<subseteq> set [0..<n]" "set added \<inter> set fin = {}"
    by blast
  from a(1) assms(2) have "added \<noteq> []" by auto
  then obtain x where x: "x \<in> set added" by (cases added) auto
  have "x \<in> {0..<n} - set fin" "x \<notin> {0..<n} - set fin'" using x a by auto
  moreover have "{0..<n} - set fin' \<subseteq> {0..<n} - set fin" using a(1) by auto
  ultimately have "{0..<n} - set fin' \<subset> {0..<n} - set fin" by blast
  then show ?thesis by (intro psubset_card_mono) simp_all
qed

text \<open>
  Rounds are repeated while a round finishes some process, from \<open>work = available\<close>
  and nothing finished.
\<close>

function spec_scan ::
  "int list list \<Rightarrow> int list list \<Rightarrow> nat \<Rightarrow> int list \<times> nat list \<Rightarrow> int list \<times> nat list" where
  "spec_scan nd alloc n (wk, fin) =
     (let r = spec_round nd alloc [0..<n] (wk, fin)
      in if length fin < length (snd r) then spec_scan nd alloc n r else r)"
  by pat_completeness auto
termination
proof (relation "measure (\<lambda>(nd, alloc, n, wk, fin). card ({0..<n} - set fin))")
  show "wf (measure (\<lambda>(nd, alloc, n, wk, fin). card ({0..<n} - set fin)))" by simp
next
  fix nd alloc :: "int list list" and n :: nat and wk :: "int list" and fin :: "nat list"
    and x :: "int list \<times> nat list"
  assume x: "x = spec_round nd alloc [0..<n] (wk, fin)" and l: "length fin < length (snd x)"
  obtain wk' fin' where r: "spec_round nd alloc [0..<n] (wk, fin) = (wk', fin')"
    by (cases "spec_round nd alloc [0..<n] (wk, fin)")
  from spec_round_progress [OF r] l x r
  show "((nd, alloc, n, x), (nd, alloc, n, wk, fin))
      \<in> measure (\<lambda>(nd, alloc, n, wk, fin). card ({0..<n} - set fin))"
    by simp
qed

declare spec_scan.simps [simp del]

text \<open>The state is safe when the scan finishes every process.\<close>

definition spec_finish_order :: "int list \<Rightarrow> int list list \<Rightarrow> int list list \<Rightarrow> nat list" where
  "spec_finish_order available maxm alloc =
     snd (spec_scan (need_of maxm alloc) alloc (length maxm) (available, []))"

definition spec_safe :: "int list \<Rightarrow> int list list \<Rightarrow> int list list \<Rightarrow> bool" where
  "spec_safe available maxm alloc \<longleftrightarrow>
     list_all (\<lambda>i. i \<in> set (spec_finish_order available maxm alloc)) [0..<length maxm]"

text \<open>
  A sequence is valid from \<open>work\<close> when each process, at the moment it is chosen, has
  \<open>need[i] \<le> work\<close>, \<open>work\<close> gaining the allocation of each process chosen before.
\<close>

fun valid_from :: "int list list \<Rightarrow> int list list \<Rightarrow> int list \<Rightarrow> nat list \<Rightarrow> bool" where
  "valid_from nd alloc wk [] = True"
| "valid_from nd alloc wk (i # is) =
     (finishable (nd ! i) wk \<and> valid_from nd alloc (map2 (+) wk (alloc ! i)) is)"

text \<open>The inputs of matching dimensions: \<open>n\<close> rows of \<open>m\<close> entries in both matrices.\<close>

definition dims_match :: "int list \<Rightarrow> int list list \<Rightarrow> int list list \<Rightarrow> bool" where
  "dims_match available maxm alloc \<longleftrightarrow>
     length alloc = length maxm
     \<and> list_all (\<lambda>row. length row = length available) maxm
     \<and> list_all (\<lambda>row. length row = length available) alloc"

text \<open>
  The inputs on which the arithmetic of the check is exact: every difference
  \<open>max[i][j] - allocation[i][j]\<close> and, for every resource type, \<open>available\<close> plus all
  allocations (in absolute value) stay within \<open>2^53\<close>.
\<close>

definition magnitudes_ok :: "int list \<Rightarrow> int list list \<Rightarrow> int list list \<Rightarrow> bool" where
  "magnitudes_ok available maxm alloc \<longleftrightarrow>
     (\<forall>i < length maxm. \<forall>j < length available. \<bar>maxm ! i ! j - alloc ! i ! j\<bar> \<le> 2 ^ 53)
     \<and> (\<forall>j < length available.
           \<bar>available ! j\<bar> + sum_list (map (\<lambda>row. \<bar>row ! j\<bar>) alloc) \<le> 2 ^ 53)"

lemma row_ok_iff:
  "\<forall>j \<in> set js. j < length a \<and> j < length w \<Longrightarrow>
     row_ok (map Some a) (map Some w) js \<longleftrightarrow> (\<forall>j \<in> set js. a ! j \<le> w ! j)"
  by (induction js) (auto simp: js_gt_def)

lemma row_ok_finishable:
  "length a = m \<Longrightarrow> length w = m \<Longrightarrow>
     row_ok (map Some a) (map Some w) [0..<m] \<longleftrightarrow> finishable a w"
proof -
  assume a: "length a = m" and w: "length w = m"
  then have "row_ok (map Some a) (map Some w) [0..<m] \<longleftrightarrow> (\<forall>j \<in> set [0..<m]. a ! j \<le> w ! j)"
    by (intro row_ok_iff) simp
  also have "\<dots> \<longleftrightarrow> finishable a w"
    using a w by (auto simp: finishable_def list_all2_conv_all_nth)
  finally show ?thesis .
qed

lemma release_nth:
  "distinct js \<Longrightarrow> \<forall>j \<in> set js. j < length wk \<Longrightarrow>
     length (release al js wk) = length wk
     \<and> (\<forall>x < length wk. release al js wk ! x
           = (if x \<in> set js then js_add (wk ! x) (js_get al x) else wk ! x))"
proof (induction js arbitrary: wk)
  case Nil
  then show ?case by simp
next
  case (Cons j js)
  let ?wk' = "wk[j := js_add (wk ! j) (js_get al j)]"
  have d: "distinct js" and nj: "j \<notin> set js" using Cons.prems(1) by simp_all
  have b: "\<forall>j \<in> set js. j < length ?wk'" using Cons.prems(2) by simp
  from Cons.IH [OF d b] have len: "length (release al js ?wk') = length wk"
    and nth: "\<forall>x < length wk. release al js ?wk' ! x
           = (if x \<in> set js then js_add (?wk' ! x) (js_get al x) else ?wk' ! x)"
    by simp_all
  have "release al (j # js) wk ! x
      = (if x \<in> set (j # js) then js_add (wk ! x) (js_get al x) else wk ! x)"
    if x: "x < length wk" for x
  proof (cases "x = j")
    case True
    then show ?thesis using nth x nj by simp
  next
    case False
    then show ?thesis using nth x by simp
  qed
  then show ?case using len by simp
qed

lemma release_all:
  assumes "length w = m" and "length al = m" and "\<forall>j < m. \<bar>w ! j + al ! j\<bar> \<le> 2 ^ 53"
  shows "release al [0..<m] (map Some w) = map Some (map2 (+) w al)"
proof (rule nth_equalityI)
  have r: "length (release al [0..<m] (map Some w)) = length (map Some w)
     \<and> (\<forall>x < length (map Some w). release al [0..<m] (map Some w) ! x
           = (if x \<in> set [0..<m] then js_add (map Some w ! x) (js_get al x) else map Some w ! x))"
    by (rule release_nth) (simp_all add: assms(1,2))
  then show "length (release al [0..<m] (map Some w)) = length (map Some (map2 (+) w al))"
    using assms(1,2) by simp
  fix i assume "i < length (release al [0..<m] (map Some w))"
  then have i: "i < m" using r assms(1,2) by simp
  then have "dadd (w ! i) (al ! i) = w ! i + al ! i" using assms(3) by (simp add: dadd_exact)
  then show "release al [0..<m] (map Some w) ! i = map Some (map2 (+) w al) ! i"
    using r assms(1,2) i by (simp add: js_add_def js_get_def)
qed

lemma need_of_row:
  "length alloc = length maxm \<Longrightarrow> i < length maxm \<Longrightarrow>
     need_of maxm alloc ! i = map2 (-) (maxm ! i) (alloc ! i)"
  by (simp add: need_of_def)

lemma dims_match_rows:
  "dims_match available maxm alloc \<Longrightarrow> i < length maxm \<Longrightarrow>
     length (maxm ! i) = length available \<and> length (alloc ! i) = length available
     \<and> length (need_of maxm alloc ! i) = length available"
  by (simp add: dims_match_def list_all_length need_of_row)

lemma need_matrix:
  assumes "dims_match available maxm alloc"
    and "\<forall>i < length maxm. \<forall>j < length available. \<bar>maxm ! i ! j - alloc ! i ! j\<bar> \<le> 2 ^ 53"
  shows "map (\<lambda>i. map (\<lambda>j. js_sub (js_get (maxm ! i) j) (js_get (alloc ! i) j)) [0..<length available])
           [0..<length maxm]
         = map (map Some) (need_of maxm alloc)"
proof (rule nth_equalityI)
  have la: "length alloc = length maxm" using assms by (simp add: dims_match_def)
  show "length (map (\<lambda>i. map (\<lambda>j. js_sub (js_get (maxm ! i) j) (js_get (alloc ! i) j))
         [0..<length available]) [0..<length maxm]) = length (map (map Some) (need_of maxm alloc))"
    using la by (simp add: need_of_def)
  fix i
  assume "i < length (map (\<lambda>i. map (\<lambda>j. js_sub (js_get (maxm ! i) j) (js_get (alloc ! i) j))
         [0..<length available]) [0..<length maxm])"
  then have i: "i < length maxm" by simp
  from dims_match_rows [OF assms(1) i] have lm: "length (maxm ! i) = length available"
    and lal: "length (alloc ! i) = length available" by simp_all
  have ex: "\<And>j. j < length available \<Longrightarrow> dsub (maxm ! i ! j) (alloc ! i ! j) = maxm ! i ! j - alloc ! i ! j"
    using assms(2) i by (simp add: dsub_exact)
  have "map (\<lambda>j. js_sub (js_get (maxm ! i) j) (js_get (alloc ! i) j)) [0..<length available]
      = map Some (map2 (-) (maxm ! i) (alloc ! i))"
    by (rule nth_equalityI) (simp_all add: lm lal js_sub_def js_get_def ex)
  moreover have "map (map Some) (need_of maxm alloc) ! i = map Some (need_of maxm alloc ! i)"
    using i la by (simp add: need_of_def)
  ultimately show "map (\<lambda>i. map (\<lambda>j. js_sub (js_get (maxm ! i) j) (js_get (alloc ! i) j))
         [0..<length available]) [0..<length maxm] ! i = map (map Some) (need_of maxm alloc) ! i"
    using i la by (simp add: need_of_row)
qed

text \<open>
  The search state of \<open>isSafe\<close> and the state of the described scan correspond:
  the same \<open>work\<close>, the same finish order, and \<open>finish[i]\<close> set for the recorded processes.
\<close>

definition sim :: "nat \<Rightarrow> nat \<Rightarrow> bk_state \<Rightarrow> int list \<times> nat list \<Rightarrow> bool" where
  "sim n m st s \<longleftrightarrow>
     bk_work st = map Some (fst s) \<and> length (fst s) = m \<and> bk_seq st = snd s
     \<and> length (bk_finish st) = n \<and> (\<forall>i < n. bk_finish st ! i \<longleftrightarrow> i \<in> set (snd s))"

text \<open>
  Room for the allocations still to be released: \<open>work\<close> and the allocations of the
  unfinished processes together stay within \<open>2^53\<close>, so every \<open>work[j] += alloc[i][j]\<close>
  is exact.
\<close>

definition headroom :: "nat \<Rightarrow> nat \<Rightarrow> int list list \<Rightarrow> int list \<times> nat list \<Rightarrow> bool" where
  "headroom n m alloc s \<longleftrightarrow>
     (\<forall>j < m. \<bar>fst s ! j\<bar> + (\<Sum>i \<in> {0..<n} - set (snd s). \<bar>alloc ! i ! j\<bar>) \<le> 2 ^ 53)"

lemma headroom_step:
  assumes h: "headroom n m alloc (wk, fin)" and i: "i < n" "i \<notin> set fin"
    and len: "length wk = m" "length (alloc ! i) = m"
  shows "(\<forall>j < m. \<bar>wk ! j + alloc ! i ! j\<bar> \<le> 2 ^ 53)
     \<and> headroom n m alloc (map2 (+) wk (alloc ! i), fin @ [i])"
proof -
  have step: "\<bar>wk ! j + alloc ! i ! j\<bar> \<le> 2 ^ 53
      \<and> \<bar>wk ! j + alloc ! i ! j\<bar> + (\<Sum>k \<in> {0..<n} - set (fin @ [i]). \<bar>alloc ! k ! j\<bar>) \<le> 2 ^ 53"
    if j: "j < m" for j
  proof -
    let ?f = "\<lambda>k. \<bar>alloc ! k ! j\<bar>"
    let ?A = "{0..<n} - set fin"
    have iA: "i \<in> ?A" using i by simp
    have "sum ?f ?A = ?f i + sum ?f (?A - {i})" by (rule sum.remove) (use i in simp_all)
    moreover have "{0..<n} - set (fin @ [i]) = ?A - {i}" by auto
    ultimately have split: "sum ?f ?A = ?f i + sum ?f ({0..<n} - set (fin @ [i]))" by simp
    have nonneg: "0 \<le> sum ?f ({0..<n} - set (fin @ [i]))" by (rule sum_nonneg) simp
    have "\<bar>wk ! j\<bar> + sum ?f ?A \<le> 2 ^ 53" using h j by (simp add: headroom_def)
    then show ?thesis using split nonneg by linarith
  qed
  have "headroom n m alloc (map2 (+) wk (alloc ! i), fin @ [i])"
    unfolding headroom_def using step len by simp
  then show ?thesis using step by blast
qed

lemma scan_round_sim:
  assumes "sim n m st (wk, fin)"
    and "\<forall>i \<in> set is. i < n"
    and "\<forall>i < n. length (nd ! i) = m \<and> length (alloc ! i) = m \<and> needm ! i = map Some (nd ! i)"
    and "headroom n m alloc (wk, fin)"
  shows "sim n m (scan_round needm alloc m is st) (spec_round nd alloc is (wk, fin))
     \<and> (bk_progress (scan_round needm alloc m is st)
          \<longleftrightarrow> bk_progress st \<or> length fin < length (snd (spec_round nd alloc is (wk, fin))))
     \<and> headroom n m alloc (spec_round nd alloc is (wk, fin))"
  using assms(1,2,4)
proof (induction "is" arbitrary: st wk fin)
  case Nil
  then show ?case by simp
next
  case (Cons i "is")
  have i: "i < n" using Cons.prems(2) by simp
  have rest: "\<forall>i \<in> set is. i < n" using Cons.prems(2) by simp
  from Cons.prems(1) have w: "bk_work st = map Some wk" and lw: "length wk = m"
    and sq: "bk_seq st = fin" and lf: "length (bk_finish st) = n"
    and fi: "\<forall>i < n. bk_finish st ! i \<longleftrightarrow> i \<in> set fin"
    by (simp_all add: sim_def)
  from assms(3) i have lnd: "length (nd ! i) = m" and lal: "length (alloc ! i) = m"
    and ndi: "needm ! i = map Some (nd ! i)" by simp_all
  have ok: "row_ok (needm ! i) (bk_work st) [0..<m] \<longleftrightarrow> finishable (nd ! i) wk"
    unfolding ndi w using lnd lw by (rule row_ok_finishable)
  show ?case
  proof (cases "i \<notin> set fin \<and> finishable (nd ! i) wk")
    case True
    let ?st' = "\<lparr>bk_work = release (alloc ! i) [0..<m] (bk_work st),
                 bk_finish = (bk_finish st)[i := True],
                 bk_seq = bk_seq st @ [i], bk_progress = True\<rparr>"
    let ?wk' = "map2 (+) wk (alloc ! i)"
    from headroom_step [OF Cons.prems(3) i _ lw lal] True
    have exact: "\<forall>j < m. \<bar>wk ! j + alloc ! i ! j\<bar> \<le> 2 ^ 53"
      and hr': "headroom n m alloc (?wk', fin @ [i])" by simp_all
    have rel: "release (alloc ! i) [0..<m] (bk_work st) = map Some ?wk'"
      unfolding w using lw lal exact by (rule release_all)
    have s': "sim n m ?st' (?wk', fin @ [i])"
      using rel lw lal sq lf fi i by (auto simp: sim_def nth_list_update)
    have e1: "scan_round needm alloc m (i # is) st = scan_round needm alloc m is ?st'"
      using True ok fi i by simp
    have e2: "spec_round nd alloc (i # is) (wk, fin) = spec_round nd alloc is (?wk', fin @ [i])"
      using True by simp
    obtain wk2 fin2 where r: "spec_round nd alloc is (?wk', fin @ [i]) = (wk2, fin2)"
      by (cases "spec_round nd alloc is (?wk', fin @ [i])")
    from spec_round_added [OF r] have "length (fin @ [i]) \<le> length fin2" by auto
    then have longer: "length fin < length (snd (spec_round nd alloc is (?wk', fin @ [i])))"
      using r by simp
    from Cons.IH [OF s' rest hr'] have
      "sim n m (scan_round needm alloc m is ?st') (spec_round nd alloc is (?wk', fin @ [i]))"
      and "bk_progress (scan_round needm alloc m is ?st')"
      and "headroom n m alloc (spec_round nd alloc is (?wk', fin @ [i]))"
      by simp_all
    then show ?thesis unfolding e1 e2 using longer by simp
  next
    case False
    have e1: "scan_round needm alloc m (i # is) st = scan_round needm alloc m is st"
      using False ok fi i by auto
    have e2: "spec_round nd alloc (i # is) (wk, fin) = spec_round nd alloc is (wk, fin)"
      using False by auto
    from Cons.IH [OF Cons.prems(1) rest Cons.prems(3)] show ?thesis unfolding e1 e2 .
  qed
qed

lemma sim_progress: "sim n m (st\<lparr>bk_progress := b\<rparr>) s = sim n m st s"
  by (simp add: sim_def)

lemma isSafe_loop_sim:
  "\<forall>i < n. length (nd ! i) = m \<and> length (alloc ! i) = m \<and> needm ! i = map Some (nd ! i) \<Longrightarrow>
   sim n m st (wk, fin) \<Longrightarrow> headroom n m alloc (wk, fin) \<Longrightarrow>
     sim n m (isSafe_loop needm alloc m st) (spec_scan nd alloc n (wk, fin))"
proof (induction needm alloc m st arbitrary: wk fin rule: isSafe_loop.induct)
  case (1 needm alloc m st)
  let ?st' = "scan_round needm alloc m [0..<length (bk_finish st)] (st\<lparr>bk_progress := False\<rparr>)"
  let ?r = "spec_round nd alloc [0..<n] (wk, fin)"
  have len: "length (bk_finish st) = n" using "1.prems"(2) by (simp add: sim_def)
  have s0: "sim n m (st\<lparr>bk_progress := False\<rparr>) (wk, fin)"
    using "1.prems"(2) by (simp add: sim_progress)
  have "sim n m (scan_round needm alloc m [0..<n] (st\<lparr>bk_progress := False\<rparr>)) ?r
     \<and> (bk_progress (scan_round needm alloc m [0..<n] (st\<lparr>bk_progress := False\<rparr>))
          \<longleftrightarrow> bk_progress (st\<lparr>bk_progress := False\<rparr>) \<or> length fin < length (snd ?r))
     \<and> headroom n m alloc ?r"
    using s0 _ "1.prems"(1,3) by (rule scan_round_sim) simp
  then have s: "sim n m ?st' ?r" and p: "bk_progress ?st' \<longleftrightarrow> length fin < length (snd ?r)"
    and hr: "headroom n m alloc ?r"
    unfolding len by simp_all
  show ?case
  proof (cases "bk_progress ?st'")
    case True
    have e1: "isSafe_loop needm alloc m st = isSafe_loop needm alloc m ?st'"
      using True by (subst isSafe_loop.simps) (simp add: Let_def)
    have e2: "spec_scan nd alloc n (wk, fin) = spec_scan nd alloc n (fst ?r, snd ?r)"
      using True p by (subst spec_scan.simps) (simp add: Let_def)
    have "sim n m (isSafe_loop needm alloc m ?st') (spec_scan nd alloc n (fst ?r, snd ?r))"
      using True "1.prems"(1) s hr by (intro "1.IH") simp_all
    then show ?thesis unfolding e1 e2 .
  next
    case False
    have e1: "isSafe_loop needm alloc m st = ?st'"
      using False by (subst isSafe_loop.simps) (simp add: Let_def)
    have e2: "spec_scan nd alloc n (wk, fin) = ?r"
      using False p by (subst spec_scan.simps) (simp add: Let_def)
    show ?thesis unfolding e1 e2 by (rule s)
  qed
qed

text \<open>\<open>work\<close> after the processes of a sequence have finished in turn.\<close>

definition work_after :: "int list list \<Rightarrow> int list \<Rightarrow> nat list \<Rightarrow> int list" where
  "work_after alloc wk sq = fold (\<lambda>i w. map2 (+) w (alloc ! i)) sq wk"

lemma valid_from_snoc:
  "valid_from nd alloc wk (sq @ [i])
     \<longleftrightarrow> valid_from nd alloc wk sq \<and> finishable (nd ! i) (work_after alloc wk sq)"
  by (induction sq arbitrary: wk) (simp_all add: work_after_def)

lemma work_after_snoc: "work_after alloc wk (sq @ [i]) = map2 (+) (work_after alloc wk sq) (alloc ! i)"
  by (simp add: work_after_def)

lemma spec_round_valid:
  "wk = work_after alloc w0 fin \<Longrightarrow> valid_from nd alloc w0 fin \<Longrightarrow>
     fst (spec_round nd alloc is (wk, fin)) = work_after alloc w0 (snd (spec_round nd alloc is (wk, fin)))
     \<and> valid_from nd alloc w0 (snd (spec_round nd alloc is (wk, fin)))"
proof (induction "is" arbitrary: wk fin)
  case Nil
  then show ?case by simp
next
  case (Cons i "is")
  show ?case
  proof (cases "i \<notin> set fin \<and> finishable (nd ! i) wk")
    case True
    have e: "spec_round nd alloc (i # is) (wk, fin)
        = spec_round nd alloc is (map2 (+) wk (alloc ! i), fin @ [i])"
      using True by simp
    have a: "map2 (+) wk (alloc ! i) = work_after alloc w0 (fin @ [i])"
      using Cons.prems(1) by (simp add: work_after_snoc)
    have b: "valid_from nd alloc w0 (fin @ [i])"
      using Cons.prems True by (simp add: valid_from_snoc)
    show ?thesis unfolding e using a b by (rule Cons.IH)
  next
    case False
    have e: "spec_round nd alloc (i # is) (wk, fin) = spec_round nd alloc is (wk, fin)"
      using False by auto
    show ?thesis unfolding e using Cons.prems by (rule Cons.IH)
  qed
qed

lemma spec_scan_valid:
  "wk = work_after alloc w0 fin \<Longrightarrow> valid_from nd alloc w0 fin \<Longrightarrow>
   distinct fin \<Longrightarrow> set fin \<subseteq> {0..<n} \<Longrightarrow>
     valid_from nd alloc w0 (snd (spec_scan nd alloc n (wk, fin)))
     \<and> distinct (snd (spec_scan nd alloc n (wk, fin)))
     \<and> set (snd (spec_scan nd alloc n (wk, fin))) \<subseteq> {0..<n}"
proof (induction nd alloc n "(wk, fin)" arbitrary: wk fin rule: spec_scan.induct)
  case (1 nd alloc n wk fin)
  let ?r = "spec_round nd alloc [0..<n] (wk, fin)"
  obtain wk' fin' where r: "?r = (wk', fin')" by (cases ?r)
  from spec_round_valid [OF "1.prems"(1,2), of "[0..<n]"] r
  have v: "wk' = work_after alloc w0 fin'" "valid_from nd alloc w0 fin'" by simp_all
  from spec_round_added [OF r] obtain added where
    ad: "fin' = fin @ added" "set added \<subseteq> set [0..<n]" "distinct fin \<longrightarrow> distinct fin'"
    by blast
  have d: "distinct fin'" using ad(3) "1.prems"(3) by simp
  have "set fin' = set fin \<union> set added" using ad(1) by simp
  then have sub: "set fin' \<subseteq> {0..<n}" using ad(2) "1.prems"(4) by (simp del: set_upt) simp
  show ?case
  proof (cases "length fin < length fin'")
    case True
    have e: "spec_scan nd alloc n (wk, fin) = spec_scan nd alloc n (wk', fin')"
      using True r by (subst spec_scan.simps) (simp add: Let_def)
    show ?thesis unfolding e
      using r True v d sub by (intro "1.hyps") simp_all
  next
    case False
    have e: "spec_scan nd alloc n (wk, fin) = (wk', fin')"
      using False r by (subst spec_scan.simps) (simp add: Let_def)
    show ?thesis unfolding e using v d sub by simp
  qed
qed

lemma isSafe_result:
  assumes "dims_match available maxm alloc" and "magnitudes_ok available maxm alloc"
  shows "isSafe available maxm alloc
     = Inr \<lparr>safe = spec_safe available maxm alloc,
            sequence = (if spec_safe available maxm alloc
                        then spec_finish_order available maxm alloc else []),
            need = map (map Some) (need_of maxm alloc)\<rparr>"
proof -
  let ?n = "length maxm" and ?m = "length available"
  let ?nd = "need_of maxm alloc"
  let ?needm = "map (map Some) ?nd"
  let ?init = "\<lparr>bk_work = map Some available, bk_finish = replicate ?n False,
               bk_seq = [], bk_progress = True\<rparr>"
  let ?st = "isSafe_loop ?needm alloc ?m ?init"
  have la: "length alloc = ?n" using assms(1) by (simp add: dims_match_def)
  have rows: "\<forall>i < ?n. length (?nd ! i) = ?m \<and> length (alloc ! i) = ?m \<and> ?needm ! i = map Some (?nd ! i)"
    using dims_match_rows [OF assms(1)] la by (simp add: need_of_def)
  have s0: "sim ?n ?m ?init (available, [])" by (simp add: sim_def)
  have diff: "\<forall>i < ?n. \<forall>j < ?m. \<bar>maxm ! i ! j - alloc ! i ! j\<bar> \<le> 2 ^ 53"
    using assms(2) by (simp add: magnitudes_ok_def)
  have h0: "headroom ?n ?m alloc (available, [])"
  proof -
    have "\<bar>available ! j\<bar> + (\<Sum>i \<in> {0..<?n}. \<bar>alloc ! i ! j\<bar>) \<le> 2 ^ 53" if j: "j < ?m" for j
    proof -
      have "sum_list (map (\<lambda>row. \<bar>row ! j\<bar>) alloc)
          = (\<Sum>i = 0..<length (map (\<lambda>row. \<bar>row ! j\<bar>) alloc). map (\<lambda>row. \<bar>row ! j\<bar>) alloc ! i)"
        by (rule sum_list_sum_nth)
      also have "\<dots> = (\<Sum>i \<in> {0..<?n}. \<bar>alloc ! i ! j\<bar>)" using la by simp
      finally have eq: "sum_list (map (\<lambda>row. \<bar>row ! j\<bar>) alloc) = (\<Sum>i \<in> {0..<?n}. \<bar>alloc ! i ! j\<bar>)" .
      have "\<bar>available ! j\<bar> + sum_list (map (\<lambda>row. \<bar>row ! j\<bar>) alloc) \<le> 2 ^ 53"
        using assms(2) j by (simp add: magnitudes_ok_def)
      then show ?thesis unfolding eq .
    qed
    then show ?thesis by (simp add: headroom_def)
  qed
  from isSafe_loop_sim [OF rows s0 h0]
  have s: "sim ?n ?m ?st (spec_scan ?nd alloc ?n (available, []))" .
  then have sq: "bk_seq ?st = spec_finish_order available maxm alloc"
    and lf: "length (bk_finish ?st) = ?n"
    and fi: "\<forall>i < ?n. bk_finish ?st ! i \<longleftrightarrow> i \<in> set (spec_finish_order available maxm alloc)"
    by (simp_all add: sim_def spec_finish_order_def)
  have sf: "list_all (\<lambda>f. f) (bk_finish ?st) \<longleftrightarrow> spec_safe available maxm alloc"
    using lf fi by (simp add: spec_safe_def list_all_length)
  have "isSafe available maxm alloc
      = Inr \<lparr>safe = list_all (\<lambda>f. f) (bk_finish ?st),
             sequence = (if list_all (\<lambda>f. f) (bk_finish ?st) then bk_seq ?st else []),
             need = ?needm\<rparr>"
    using la by (simp add: isSafe_def Let_def need_matrix [OF assms(1) diff])
  then show ?thesis by (simp only: sf sq)
qed

lemma spec_finish_order_valid:
  "valid_from (need_of maxm alloc) alloc available (spec_finish_order available maxm alloc)
   \<and> distinct (spec_finish_order available maxm alloc)
   \<and> set (spec_finish_order available maxm alloc) \<subseteq> {0..<length maxm}"
  unfolding spec_finish_order_def
  by (rule spec_scan_valid) (simp_all add: work_after_def)

lemma spec_safe_all:
  assumes "spec_safe available maxm alloc"
  shows "mset (spec_finish_order available maxm alloc) = mset [0..<length maxm]"
proof -
  let ?fin = "spec_finish_order available maxm alloc"
  from spec_finish_order_valid [of maxm alloc available]
  have d: "distinct ?fin" and sub: "set ?fin \<subseteq> {0..<length maxm}" by simp_all
  from assms have "{0..<length maxm} \<subseteq> set ?fin"
    by (auto simp: spec_safe_def list_all_iff)
  with sub have "set ?fin = set [0..<length maxm]" by auto
  then show ?thesis using d distinct_upt set_eq_iff_mset_eq_distinct by blast
qed

text \<open>
  Claim C2, as stated, puts no bound on the entries. The check computes in doubles,
  exact on the integers up to \<open>2^53\<close> only: with \<open>available = [2^53]\<close>,
  \<open>max = [[2^53 + 2]]\<close> and \<open>allocation = [[1]]\<close> the need \<open>2^53 + 1\<close> is rounded to \<open>2^53\<close>,
  which does not exceed \<open>work\<close>; \<open>isSafe\<close> answers "safe" with the sequence \<open>[0]\<close>, while
  the process is not finishable (\<open>2^53 + 1 \<le> 2^53\<close> is false) and the described scan
  finishes nothing.
\<close>

theorem banker_counterexample_C2:
  "dims_match [9007199254740992] [[9007199254740994]] [[1]]
   \<and> (1 :: int) \<le> 9007199254740994
   \<and> isSafe [9007199254740992] [[9007199254740994]] [[1]]
       = Inr \<lparr>safe = True, sequence = [0], need = [[Some 9007199254740992]]\<rparr>
   \<and> need_of [[9007199254740994]] [[1]] = [[9007199254740993]]
   \<and> finishable [9007199254740993] [9007199254740992] = False
   \<and> spec_safe [9007199254740992] [[9007199254740994]] [[1]] = False"
  by code_simp

text \<open>
  Claim C2, amended. For \<open>max\<close>, \<open>allocation\<close> and \<open>available\<close> of matching dimensions with
  \<open>allocation[i][j] \<le> max[i][j]\<close>, and of magnitudes that keep the arithmetic of the
  check exact (\<open>magnitudes_ok\<close>: every \<open>max[i][j] - allocation[i][j]\<close>, and for every
  resource type \<open>available[j]\<close> plus all \<open>allocation[i][j]\<close> in absolute value, within
  \<open>2^53\<close>), \<open>isSafe\<close> returns a result (no error), with
  \<open>need = max - allocation\<close>, and \<open>safe\<close> is true exactly when the described scan
  finishes every process. When safe, the sequence is the scan's finish order, lists
  every process index once, and each process in it has \<open>need[i] \<le> work\<close> at the moment
  it is chosen. When unsafe, the sequence is empty.
\<close>

theorem banker_C2:
  assumes "dims_match available maxm alloc"
    and "\<forall>i < length maxm. \<forall>j < length available. alloc ! i ! j \<le> maxm ! i ! j"
    and "magnitudes_ok available maxm alloc"
  shows "\<exists>r. isSafe available maxm alloc = Inr r
     \<and> need r = map (map Some) (need_of maxm alloc)
     \<and> (safe r \<longleftrightarrow> spec_safe available maxm alloc)
     \<and> (safe r \<longrightarrow>
          sequence r = spec_finish_order available maxm alloc
          \<and> mset (sequence r) = mset [0..<length maxm]
          \<and> valid_from (need_of maxm alloc) alloc available (sequence r))
     \<and> (\<not> safe r \<longrightarrow> sequence r = [])"
proof -
  let ?r = "\<lparr>safe = spec_safe available maxm alloc,
            sequence = (if spec_safe available maxm alloc
                        then spec_finish_order available maxm alloc else []),
            need = map (map Some) (need_of maxm alloc)\<rparr>"
  have e: "isSafe available maxm alloc = Inr ?r" using assms(1,3) by (rule isSafe_result)
  have "safe ?r \<longrightarrow>
          sequence ?r = spec_finish_order available maxm alloc
          \<and> mset (sequence ?r) = mset [0..<length maxm]
          \<and> valid_from (need_of maxm alloc) alloc available (sequence ?r)"
    using spec_finish_order_valid [of maxm alloc available]
    by (simp add: spec_safe_all)
  then show ?thesis using e by simp
qed

theorem banker_C2_witness:
  "dims_match [3, 3, 2] [[7, 5, 3], [3, 2, 2], [9, 0, 2], [2, 2, 2], [4, 3, 3]]
       [[0, 1, 0], [2, 0, 0], [3, 0, 2], [2, 1, 1], [0, 0, 2]]
   \<and> magnitudes_ok [3, 3, 2] [[7, 5, 3], [3, 2, 2], [9, 0, 2], [2, 2, 2], [4, 3, 3]]
       [[0, 1, 0], [2, 0, 0], [3, 0, 2], [2, 1, 1], [0, 0, 2]]
   \<and> isSafe [3, 3, 2] [[7, 5, 3], [3, 2, 2], [9, 0, 2], [2, 2, 2], [4, 3, 3]]
       [[0, 1, 0], [2, 0, 0], [3, 0, 2], [2, 1, 1], [0, 0, 2]]
     = Inr \<lparr>safe = True, sequence = [1, 3, 4, 0, 2],
            need = [[Some 7, Some 4, Some 3], [Some 1, Some 2, Some 2], [Some 6, Some 0, Some 0],
                    [Some 0, Some 1, Some 1], [Some 4, Some 3, Some 1]]\<rparr>
   \<and> spec_safe [3, 3, 2] [[7, 5, 3], [3, 2, 2], [9, 0, 2], [2, 2, 2], [4, 3, 3]]
       [[0, 1, 0], [2, 0, 0], [3, 0, 2], [2, 1, 1], [0, 0, 2]]
   \<and> valid_from (need_of [[7, 5, 3], [3, 2, 2], [9, 0, 2], [2, 2, 2], [4, 3, 3]]
                          [[0, 1, 0], [2, 0, 0], [3, 0, 2], [2, 1, 1], [0, 0, 2]])
        [[0, 1, 0], [2, 0, 0], [3, 0, 2], [2, 1, 1], [0, 0, 2]] [3, 3, 2] [1, 3, 4, 0, 2]"
proof -
  let ?av = "[3, 3, 2 :: int]"
  let ?mx = "[[7, 5, 3], [3, 2, 2], [9, 0, 2], [2, 2, 2], [4, 3, 3 :: int]]"
  let ?al = "[[0, 1, 0], [2, 0, 0], [3, 0, 2], [2, 1, 1], [0, 0, 2 :: int]]"
  have d: "dims_match ?av ?mx ?al" by (simp add: dims_match_def)
  have le: "\<forall>i < length ?mx. \<forall>j < length ?av. ?al ! i ! j \<le> ?mx ! i ! j"
    by (simp add: less_Suc_eq numeral_3_eq_3 numeral_eq_Suc all_conj_distrib)
  have mg: "magnitudes_ok ?av ?mx ?al"
    by (simp add: magnitudes_ok_def less_Suc_eq numeral_3_eq_3 numeral_eq_Suc all_conj_distrib)
  have v: "isSafe ?av ?mx ?al
     = Inr \<lparr>safe = True, sequence = [1, 3, 4, 0, 2],
            need = [[Some 7, Some 4, Some 3], [Some 1, Some 2, Some 2], [Some 6, Some 0, Some 0],
                    [Some 0, Some 1, Some 1], [Some 4, Some 3, Some 1]]\<rparr>"
    by code_simp
  from banker_C2 [OF d le mg] obtain r where
    r: "isSafe ?av ?mx ?al = Inr r" "safe r \<longleftrightarrow> spec_safe ?av ?mx ?al"
       "safe r \<longrightarrow> valid_from (need_of ?mx ?al) ?al ?av (sequence r)"
    by blast
  from r(1) v have "r = \<lparr>safe = True, sequence = [1, 3, 4, 0, 2],
            need = [[Some 7, Some 4, Some 3], [Some 1, Some 2, Some 2], [Some 6, Some 0, Some 0],
                    [Some 0, Some 1, Some 1], [Some 4, Some 3, Some 1]]\<rparr>" by simp
  then have "safe r" and "sequence r = [1, 3, 4, 0, 2]" by simp_all
  with r(2,3) have "spec_safe ?av ?mx ?al" and "valid_from (need_of ?mx ?al) ?al ?av [1, 3, 4, 0, 2]"
    by simp_all
  with d mg v show ?thesis by simp
qed

section \<open>Conservation of the burst\<close>

lemma executed_Nil: "executed [] k = 0"
  by (simp add: executed_def)

lemma executed_snoc:
  "executed (schedule @ [s]) k = executed schedule k + (if seg_pid s = k then seg_len s else 0)"
  by (simp add: executed_def)

lemma seg_len_closed:
  "seg_len \<lparr>seg_pid = k, seg_start = a, seg_end = Some b\<rparr> = b - a"
  by (simp add: seg_len_def js_num_def)

text \<open>The processes of a list are told apart by their pids.\<close>

lemma pid_inj:
  "distinct (map pid procs) \<Longrightarrow> p \<in> set procs \<Longrightarrow> q \<in> set procs \<Longrightarrow> pid p = pid q \<Longrightarrow> p = q"
  by (meson distinct_map inj_onD)

lemma pid_nth_inj:
  "distinct (map pid procs) \<Longrightarrow> i < length procs \<Longrightarrow> j < length procs
    \<Longrightarrow> pid (procs ! i) = pid (procs ! j) \<Longrightarrow> i = j"
proof -
  assume d: "distinct (map pid procs)" and i: "i < length procs" and j: "j < length procs"
    and e: "pid (procs ! i) = pid (procs ! j)"
  have "map pid procs ! i = map pid procs ! j" using e i j by simp
  moreover have "i < length (map pid procs)" "j < length (map pid procs)" using i j by simp_all
  ultimately show "i = j" using d nth_eq_iff_index_eq by blast
qed

text \<open>
  The clock never passes the last arrival plus the bursts still to run. With every
  arrival plus the sum of all bursts within \<open>2^53\<close>, each addition of the schedulers is
  exact.
\<close>

lemma burst_sum_nonneg: "\<forall>p \<in> set ps. 0 < burst p \<Longrightarrow> 0 \<le> sum_list (map burst ps)"
  by (rule sum_list_nonneg) auto

lemma burst_sum_sort: "sum_list (map burst (sort_key f ps)) = sum_list (map burst ps)"
proof -
  have "mset (map burst (sort_key f ps)) = mset (map burst ps)" by simp
  then show ?thesis by (metis sum_mset_sum_list)
qed

lemma burst_sum_bound:
  assumes "\<forall>p \<in> set ps. 0 \<le> arrival p \<and> 0 < burst p"
    and "\<forall>p \<in> set ps. arrival p + sum_list (map burst ps) \<le> 2 ^ 53"
  shows "sum_list (map burst ps) \<le> 2 ^ 53"
proof (cases ps)
  case Nil
  then show ?thesis by simp
next
  case (Cons p rest)
  then have "p \<in> set ps" by simp
  then have "0 \<le> arrival p" "arrival p + sum_list (map burst ps) \<le> 2 ^ 53"
    using assms by simp_all
  then show ?thesis by linarith
qed

lemma fold_min_le: "fold min xs (a :: int) \<le> a"
proof (induction xs arbitrary: a)
  case Nil
  then show ?case by simp
next
  case (Cons x xs)
  have "fold min xs (min x a) \<le> min x a" by (rule Cons.IH)
  then show ?case by simp
qed

lemma fold_min_nonneg: "\<forall>x \<in> set xs. 0 \<le> x \<Longrightarrow> 0 \<le> a \<Longrightarrow> 0 \<le> fold min xs (a :: int)"
  by (induction xs arbitrary: a) simp_all

lemma min_arrival_ok:
  assumes "\<forall>p \<in> set ps. 0 \<le> arrival p \<and> 0 < burst p"
    and "\<forall>p \<in> set ps. arrival p + sum_list (map burst ps) \<le> 2 ^ 53"
  shows "0 \<le> min_arrival ps \<and> min_arrival ps + sum_list (map burst ps) \<le> 2 ^ 53"
proof (cases ps)
  case Nil
  then show ?thesis by (simp add: min_arrival_def)
next
  case (Cons p rest)
  have p: "0 \<le> arrival p" "arrival p + sum_list (map burst ps) \<le> 2 ^ 53"
    using assms Cons by simp_all
  have m: "min_arrival ps = fold min (map arrival rest) (arrival p)"
    using Cons by (simp add: min_arrival_def)
  have "\<forall>x \<in> set (map arrival rest). 0 \<le> x" using assms(1) Cons by simp
  then have "0 \<le> min_arrival ps" unfolding m using p(1) by (rule fold_min_nonneg)
  moreover have "min_arrival ps \<le> arrival p" unfolding m by (rule fold_min_le)
  ultimately show ?thesis using p(2) by linarith
qed

subsection \<open>fcfs\<close>

lemma fcfs_loop_executed:
  assumes "\<forall>p \<in> set ps. 0 \<le> arrival p \<and> 0 < burst p"
    and "\<forall>p \<in> set ps. arrival p + sum_list (map burst ps) \<le> 2 ^ 53"
    and "0 \<le> t" and "t + sum_list (map burst ps) \<le> 2 ^ 53"
  shows "executed (fcfs_loop ps t schedule) k
     = executed schedule k + sum_list (map burst (filter (\<lambda>p. pid p = k) ps))"
  using assms
proof (induction ps arbitrary: t schedule)
  case Nil
  then show ?case by simp
next
  case (Cons p ps)
  let ?t' = "max t (arrival p)"
  let ?seg = "\<lparr>seg_pid = pid p, seg_start = ?t', seg_end = Some (?t' + burst p)\<rparr>"
  have pos: "\<forall>q \<in> set ps. 0 \<le> arrival q \<and> 0 < burst q" using Cons.prems(1) by simp
  have s0: "0 \<le> sum_list (map burst ps)" using pos by (intro burst_sum_nonneg) simp
  have p: "0 \<le> arrival p" "0 < burst p" "arrival p + (burst p + sum_list (map burst ps)) \<le> 2 ^ 53"
    using Cons.prems(1,2) by simp_all
  have t: "t + (burst p + sum_list (map burst ps)) \<le> 2 ^ 53" using Cons.prems(4) by simp
  have hi: "?t' + burst p + sum_list (map burst ps) \<le> 2 ^ 53" using p(3) t by (simp add: max_def)
  have lo: "0 \<le> ?t' + burst p" using Cons.prems(3) p(2) by simp
  have "\<bar>?t' + burst p\<bar> \<le> 2 ^ 53" using hi lo s0 by linarith
  then have ex: "dadd ?t' (burst p) = ?t' + burst p" by (rule dadd_exact)
  have step: "fcfs_loop (p # ps) t schedule = fcfs_loop ps (?t' + burst p) (schedule @ [?seg])"
    by (simp add: Let_def ex)
  have rest: "\<forall>q \<in> set ps. arrival q + sum_list (map burst ps) \<le> 2 ^ 53"
  proof
    fix q assume "q \<in> set ps"
    then have "arrival q + (burst p + sum_list (map burst ps)) \<le> 2 ^ 53"
      using Cons.prems(2) by simp
    then show "arrival q + sum_list (map burst ps) \<le> 2 ^ 53" using p(2) by linarith
  qed
  have "executed (fcfs_loop ps (?t' + burst p) (schedule @ [?seg])) k
      = executed (schedule @ [?seg]) k + sum_list (map burst (filter (\<lambda>p. pid p = k) ps))"
    using pos rest lo hi by (rule Cons.IH)
  then show ?case unfolding step by (simp add: executed_snoc seg_len_closed)
qed

lemma filter_pid_single:
  "distinct (map pid ps) \<Longrightarrow> p \<in> set ps \<Longrightarrow> filter (\<lambda>q. pid q = pid p) ps = [p]"
proof (induction ps)
  case Nil
  then show ?case by simp
next
  case (Cons a ps)
  show ?case
  proof (cases "a = p")
    case True
    have np: "pid p \<notin> pid ` set ps" using Cons.prems(1) True by simp
    have "\<forall>x \<in> set ps. pid x \<noteq> pid p"
    proof
      fix x assume "x \<in> set ps"
      then have "pid x \<in> pid ` set ps" by (rule imageI)
      with np show "pid x \<noteq> pid p" by metis
    qed
    then have "filter (\<lambda>q. pid q = pid p) ps = []"
      by (simp add: filter_empty_conv)
    then show ?thesis using True by simp
  next
    case False
    then have p: "p \<in> set ps" using Cons.prems(2) by simp
    have "pid a \<noteq> pid p" using Cons.prems(1) p by auto
    then show ?thesis using Cons.IH Cons.prems(1) p by simp
  qed
qed

lemma fcfs_conserves:
  assumes "distinct (map pid processes)" and "p \<in> set processes"
    and ok: "\<forall>p \<in> set processes. 0 \<le> arrival p \<and> 0 < burst p"
    and small: "\<forall>p \<in> set processes. arrival p + sum_list (map burst processes) \<le> 2 ^ 53"
  shows "executed (fcfs processes) (pid p) = burst p"
proof -
  let ?sorted = "sort_key arrival processes"
  have ok': "\<forall>p \<in> set ?sorted. 0 \<le> arrival p \<and> 0 < burst p" using ok by simp
  have small': "\<forall>p \<in> set ?sorted. arrival p + sum_list (map burst ?sorted) \<le> 2 ^ 53"
    using small by (simp add: burst_sum_sort)
  have total: "0 + sum_list (map burst ?sorted) \<le> 2 ^ 53"
    using burst_sum_bound [OF ok' small'] by simp
  have m: "mset ?sorted = mset processes" by simp
  have d: "distinct (map pid ?sorted)"
  proof -
    have "mset (map pid ?sorted) = mset (map pid processes)" by simp
    then show ?thesis using assms(1) by (metis mset_eq_imp_distinct_iff)
  qed
  have p: "p \<in> set ?sorted" using assms(2) by simp
  have "executed (fcfs_loop ?sorted 0 []) (pid p)
      = executed [] (pid p) + sum_list (map burst (filter (\<lambda>q. pid q = pid p) ?sorted))"
    using ok' small' _ total by (rule fcfs_loop_executed) simp
  then have "executed (fcfs processes) (pid p)
      = sum_list (map burst (filter (\<lambda>q. pid q = pid p) ?sorted))"
    by (simp add: fcfs_def executed_Nil)
  also have "\<dots> = burst p" using filter_pid_single [OF d p] by simp
  finally show ?thesis .
qed

subsection \<open>priorityNonPreemptive\<close>

lemma set_add_new: "k \<notin> set seen \<Longrightarrow> set_add seen k = seen @ [k]"
  by (simp add: set_add_def)

lemma seen_all:
  assumes "distinct (map pid procs)" and "distinct seen" and "set seen \<subseteq> pid ` set procs"
    and "\<not> length seen < length procs"
  shows "set seen = pid ` set procs"
proof -
  have "card (set seen) = length seen" using assms(2) by (simp add: distinct_card)
  moreover have "card (pid ` set procs) = length procs"
    using assms(1) by (metis distinct_card length_map set_map)
  ultimately have "card (pid ` set procs) \<le> card (set seen)" using assms(4) by simp
  then show ?thesis using assms(3) by (simp add: card_seteq)
qed

lemma seen_missing:
  assumes "distinct (map pid procs)" and "distinct seen" and "set seen \<subseteq> pid ` set procs"
    and "length seen < length procs"
  shows "\<exists>q \<in> set procs. pid q \<notin> set seen"
proof (rule ccontr)
  assume "\<not> (\<exists>q \<in> set procs. pid q \<notin> set seen)"
  then have "pid ` set procs \<subseteq> set seen" by auto
  then have "card (pid ` set procs) \<le> card (set seen)" by (simp add: card_mono)
  moreover have "card (set seen) = length seen" using assms(2) by (simp add: distinct_card)
  moreover have "card (pid ` set procs) = length procs"
    using assms(1) by (metis distinct_card length_map set_map)
  ultimately show False using assms(4) by simp
qed

lemma hd_sort_key_mem: "xs \<noteq> [] \<Longrightarrow> hd (sort_key f xs) \<in> set xs"
proof -
  assume "xs \<noteq> []"
  then have "sort_key f xs \<noteq> []" by (metis length_sort length_0_conv)
  then have "hd (sort_key f xs) \<in> set (sort_key f xs)" by (rule hd_in_set)
  then show ?thesis by simp
qed

text \<open>The bursts of the processes that have not run yet.\<close>

definition todo :: "string list \<Rightarrow> process list \<Rightarrow> int" where
  "todo seen procs = sum_list (map burst (filter (\<lambda>q. pid q \<notin> set seen) procs))"

lemma todo_nonneg: "\<forall>q \<in> set procs. 0 < burst q \<Longrightarrow> 0 \<le> todo seen procs"
  unfolding todo_def by (rule sum_list_nonneg) auto

lemma todo_le: "\<forall>q \<in> set procs. 0 < burst q \<Longrightarrow> todo seen procs \<le> sum_list (map burst procs)"
  unfolding todo_def by (induction procs) auto

lemma todo_Nil: "todo [] procs = sum_list (map burst procs)"
  by (simp add: todo_def)

lemma todo_other:
  "pid p \<notin> pid ` set procs \<Longrightarrow> todo (seen @ [pid p]) procs = todo seen procs"
proof -
  assume a: "pid p \<notin> pid ` set procs"
  have "filter (\<lambda>q. pid q \<notin> set (seen @ [pid p])) procs = filter (\<lambda>q. pid q \<notin> set seen) procs"
    by (rule filter_cong) (use a in force)+
  then show ?thesis by (simp add: todo_def)
qed

lemma todo_Cons:
  "todo seen (a # procs) = (if pid a \<in> set seen then 0 else burst a) + todo seen procs"
  by (simp add: todo_def)

lemma todo_step:
  "distinct (map pid procs) \<Longrightarrow> p \<in> set procs \<Longrightarrow> pid p \<notin> set seen \<Longrightarrow>
   todo (seen @ [pid p]) procs = todo seen procs - burst p"
proof (induction procs)
  case Nil
  then show ?case by simp
next
  case (Cons a procs)
  show ?case
  proof (cases "a = p")
    case True
    have "pid p \<notin> pid ` set procs" using Cons.prems(1) True by simp
    then have "todo (seen @ [pid p]) procs = todo seen procs" by (rule todo_other)
    then show ?thesis using True Cons.prems(3) by (simp add: todo_Cons)
  next
    case False
    then have p: "p \<in> set procs" using Cons.prems(2) by simp
    have "pid a \<noteq> pid p" using Cons.prems(1) p by force
    moreover have "todo (seen @ [pid p]) procs = todo seen procs - burst p"
      using Cons.prems(1,3) p by (intro Cons.IH) simp_all
    ultimately show ?thesis by (simp add: todo_Cons)
  qed
qed

lemma priority_loop_conserves:
  assumes d: "distinct (map pid procs)"
    and pos: "\<forall>q \<in> set procs. 0 < burst q"
    and bound: "\<forall>q \<in> set procs. arrival q \<le> M"
    and small: "M + sum_list (map burst procs) \<le> 2 ^ 53"
  shows "distinct done \<Longrightarrow> set done \<subseteq> pid ` set procs \<Longrightarrow>
    \<forall>q \<in> set procs. executed schedule (pid q) = (if pid q \<in> set done then burst q else 0) \<Longrightarrow>
    0 \<le> t \<Longrightarrow> t + todo done procs \<le> 2 ^ 53 \<Longrightarrow>
    \<exists>s. priority_loop procs t done schedule = Some s
         \<and> (\<forall>q \<in> set procs. executed s (pid q) = burst q)"
proof (induction "length procs - length done + nat (M - t)" arbitrary: t "done" schedule rule: less_induct)
  case less
  have td0: "0 \<le> todo done procs" using pos by (rule todo_nonneg)
  have tdS: "todo done procs \<le> sum_list (map burst procs)" using pos by (rule todo_le)
  show ?case
  proof (cases "length done < length procs")
    case False
    have all: "set done = pid ` set procs" using d less.prems(1,2) False by (rule seen_all)
    have "priority_loop procs t done schedule = Some schedule"
      using False by (subst priority_loop.simps) simp
    then show ?thesis using less.prems(3) all by auto
  next
    case True
    let ?ready = "filter (\<lambda>p. arrival p \<le> t \<and> pid p \<notin> set done) procs"
    show ?thesis
    proof (cases "?ready = []")
      case idle: True
      from seen_missing [OF d less.prems(1,2) True] obtain q0 where
        q0: "q0 \<in> set procs" "pid q0 \<notin> set done" by blast
      have "t < arrival q0"
      proof (rule ccontr)
        assume "\<not> t < arrival q0"
        then have "q0 \<in> set ?ready" using q0 by simp
        then show False using idle by simp
      qed
      then have tM: "t < M" using bound q0(1) by force
      have "\<bar>t + 1\<bar> \<le> 2 ^ 53" using less.prems(4) tM small tdS td0 by linarith
      then have ex: "dadd t 1 = t + 1" by (rule dadd_exact)
      have e: "priority_loop procs t done schedule = priority_loop procs (t + 1) done schedule"
        using True idle by (subst priority_loop.simps) (simp add: Let_def ex)
      have c1: "0 \<le> t + 1" using less.prems(4) by simp
      have c2: "t + 1 + todo done procs \<le> 2 ^ 53" using tM small tdS by linarith
      have "length procs - length done + nat (M - (t + 1)) < length procs - length done + nat (M - t)"
        using tM by simp
      from less.hyps [OF this less.prems(1-3) c1 c2] show ?thesis unfolding e .
    next
      case busy: False
      let ?p = "hd (sort_key prio ?ready)"
      let ?seg = "\<lparr>seg_pid = pid ?p, seg_start = t, seg_end = Some (t + burst ?p)\<rparr>"
      have "?p \<in> set ?ready" using busy by (rule hd_sort_key_mem)
      then have p: "?p \<in> set procs" and nd: "pid ?p \<notin> set done" by simp_all
      have bp: "0 < burst ?p" using pos p by simp
      have ts: "todo (done @ [pid ?p]) procs = todo done procs - burst ?p"
        using d p nd by (rule todo_step)
      have "0 \<le> todo (done @ [pid ?p]) procs" using pos by (rule todo_nonneg)
      then have ble: "burst ?p \<le> todo done procs" using ts by simp
      have "\<bar>t + burst ?p\<bar> \<le> 2 ^ 53" using less.prems(4,5) bp ble by linarith
      then have ex: "dadd t (burst ?p) = t + burst ?p" by (rule dadd_exact)
      have e: "priority_loop procs t done schedule
          = priority_loop procs (t + burst ?p) (done @ [pid ?p]) (schedule @ [?seg])"
        using True busy nd by (subst priority_loop.simps) (simp add: Let_def set_add_new ex)
      have c1: "0 \<le> t + burst ?p" using less.prems(4) bp by simp
      have c2: "t + burst ?p + todo (done @ [pid ?p]) procs \<le> 2 ^ 53"
        using less.prems(5) ts by simp
      have m: "length procs - length (done @ [pid ?p]) + nat (M - (t + burst ?p))
          < length procs - length done + nat (M - t)"
        using True bp by simp
      have i1: "distinct (done @ [pid ?p])" using less.prems(1) nd by simp
      have i2: "set (done @ [pid ?p]) \<subseteq> pid ` set procs" using less.prems(2) p by auto
      have i3: "\<forall>q \<in> set procs. executed (schedule @ [?seg]) (pid q)
          = (if pid q \<in> set (done @ [pid ?p]) then burst q else 0)"
      proof
        fix q assume q: "q \<in> set procs"
        show "executed (schedule @ [?seg]) (pid q)
          = (if pid q \<in> set (done @ [pid ?p]) then burst q else 0)"
        proof (cases "pid q = pid ?p")
          case True
          then have "q = ?p" using d q p by (rule pid_inj [rotated 3])
          then show ?thesis using less.prems(3) p nd
            by (simp add: executed_snoc seg_len_closed)
        next
          case False
          then show ?thesis using less.prems(3) q
            by (simp add: executed_snoc)
        qed
      qed
      from less.hyps [OF m i1 i2 i3 c1 c2] show ?thesis unfolding e .
    qed
  qed
qed

subsection \<open>sjf\<close>

lemma sjf_admit_Cons:
  "sjf_admit seen t (p # ps) ready
     = sjf_admit seen t ps
         (if pid p \<notin> set seen \<and> arrival p \<le> t \<and> pid p \<notin> set (map pid ready)
          then ready @ [p] else ready)"
  by (simp add: sjf_admit_def)

lemma sjf_admit_Nil: "sjf_admit seen t [] ready = ready"
  by (simp add: sjf_admit_def)

lemma sjf_admit_subset:
  "set (sjf_admit seen t ps ready)
     \<subseteq> set ready \<union> {p \<in> set ps. pid p \<notin> set seen \<and> arrival p \<le> t}"
proof (induction ps arbitrary: ready)
  case Nil
  then show ?case by (simp add: sjf_admit_Nil)
next
  case (Cons p ps)
  show ?case unfolding sjf_admit_Cons using Cons.IH [of "ready @ [p]"] Cons.IH [of ready]
    by (auto split: if_splits)
qed

lemma sjf_admit_distinct:
  "distinct (map pid ready) \<Longrightarrow> distinct (map pid (sjf_admit seen t ps ready))"
proof (induction ps arbitrary: ready)
  case Nil
  then show ?case by (simp add: sjf_admit_Nil)
next
  case (Cons p ps)
  show ?case unfolding sjf_admit_Cons using Cons.prems
    by (intro Cons.IH) auto
qed

lemma sjf_admit_keeps: "pid ` set ready \<subseteq> pid ` set (sjf_admit seen t ps ready)"
proof (induction ps arbitrary: ready)
  case Nil
  then show ?case by (simp add: sjf_admit_Nil)
next
  case (Cons p ps)
  show ?case unfolding sjf_admit_Cons using Cons.IH [of "ready @ [p]"] Cons.IH [of ready]
    by (auto split: if_splits)
qed

lemma sjf_admit_arrived:
  "q \<in> set ps \<Longrightarrow> pid q \<notin> set seen \<Longrightarrow> arrival q \<le> t
    \<Longrightarrow> pid q \<in> pid ` set (sjf_admit seen t ps ready)"
proof (induction ps arbitrary: ready)
  case Nil
  then show ?case by simp
next
  case (Cons p ps)
  show ?case
  proof (cases "q = p")
    case True
    let ?r = "if pid p \<notin> set seen \<and> arrival p \<le> t \<and> pid p \<notin> set (map pid ready)
          then ready @ [p] else ready"
    have "pid q \<in> pid ` set ?r" using True Cons.prems(2,3) by auto
    then show ?thesis unfolding sjf_admit_Cons using sjf_admit_keeps [of ?r seen t ps] by blast
  next
    case False
    then have "q \<in> set ps" using Cons.prems(1) by simp
    then show ?thesis unfolding sjf_admit_Cons using Cons.prems(2,3) by (rule Cons.IH)
  qed
qed

lemma sjf_loop_conserves:
  assumes d: "distinct (map pid procs)"
    and pos: "\<forall>q \<in> set procs. 0 < burst q"
    and bound: "\<forall>q \<in> set procs. arrival q \<le> M"
    and small: "M + sum_list (map burst procs) \<le> 2 ^ 53"
  shows "distinct seen \<Longrightarrow> set seen \<subseteq> pid ` set procs \<Longrightarrow>
    set ready \<subseteq> set procs \<Longrightarrow> distinct (map pid ready) \<Longrightarrow> pid ` set ready \<inter> set seen = {} \<Longrightarrow>
    \<forall>q \<in> set procs. executed schedule (pid q) = (if pid q \<in> set seen then burst q else 0) \<Longrightarrow>
    0 \<le> t \<Longrightarrow> t + todo seen procs \<le> 2 ^ 53 \<Longrightarrow>
    \<exists>s. sjf_loop procs t ready seen schedule = Some s
         \<and> (\<forall>q \<in> set procs. executed s (pid q) = burst q)"
proof (induction "length procs - length seen + nat (M - t)" arbitrary: t ready seen schedule
    rule: less_induct)
  case less
  have td0: "0 \<le> todo seen procs" using pos by (rule todo_nonneg)
  have tdS: "todo seen procs \<le> sum_list (map burst procs)" using pos by (rule todo_le)
  show ?case
  proof (cases "length seen < length procs")
    case False
    have all: "set seen = pid ` set procs" using d less.prems(1,2) False by (rule seen_all)
    have "sjf_loop procs t ready seen schedule = Some schedule"
      using False by (subst sjf_loop.simps) simp
    then show ?thesis using less.prems(6) all by auto
  next
    case True
    let ?ready1 = "sjf_admit seen t procs ready"
    have r1_sub: "set ?ready1 \<subseteq> set procs"
      using sjf_admit_subset [of seen t procs ready] less.prems(3) by auto
    have r1_dist: "distinct (map pid ?ready1)" using less.prems(4) by (rule sjf_admit_distinct)
    have r1_unseen: "pid ` set ?ready1 \<inter> set seen = {}"
      using sjf_admit_subset [of seen t procs ready] less.prems(5) by auto
    show ?thesis
    proof (cases "?ready1 = []")
      case idle: True
      from seen_missing [OF d less.prems(1,2) True] obtain q where
        q: "q \<in> set procs" "pid q \<notin> set seen" by blast
      have "t < arrival q"
      proof (rule ccontr)
        assume "\<not> t < arrival q"
        then have "pid q \<in> pid ` set ?ready1" using q by (intro sjf_admit_arrived) simp_all
        then show False using idle by simp
      qed
      then have tM: "t < M" using bound q(1) by force
      then have m: "length procs - length seen + nat (M - (t + 1))
          < length procs - length seen + nat (M - t)"
        by simp
      have "\<bar>t + 1\<bar> \<le> 2 ^ 53" using less.prems(7) tM small tdS td0 by linarith
      then have ex: "dadd t 1 = t + 1" by (rule dadd_exact)
      have e: "sjf_loop procs t ready seen schedule = sjf_loop procs (t + 1) [] seen schedule"
        using True idle by (subst sjf_loop.simps) (simp add: Let_def ex)
      have c1: "0 \<le> t + 1" using less.prems(7) by simp
      have c2: "t + 1 + todo seen procs \<le> 2 ^ 53" using tM small tdS by linarith
      have "\<exists>s. sjf_loop procs (t + 1) [] seen schedule = Some s
           \<and> (\<forall>q \<in> set procs. executed s (pid q) = burst q)"
        using m less.prems(1,2) _ _ _ less.prems(6) c1 c2 by (rule less.hyps) simp_all
      then show ?thesis unfolding e .
    next
      case busy: False
      let ?ready2 = "sort_key burst ?ready1"
      let ?p = "hd ?ready2"
      let ?seg = "\<lparr>seg_pid = pid ?p, seg_start = t, seg_end = Some (t + burst ?p)\<rparr>"
      have ne2: "?ready2 \<noteq> []" using busy by (metis length_sort length_0_conv)
      then have split: "?ready2 = ?p # tl ?ready2" by simp
      have "?p \<in> set ?ready1" using busy by (rule hd_sort_key_mem)
      then have p: "?p \<in> set procs" and nd: "pid ?p \<notin> set seen"
        using r1_sub r1_unseen by auto
      have bp: "0 < burst ?p" using pos p by simp
      have "mset (map pid ?ready2) = mset (map pid ?ready1)" by simp
      then have d2: "distinct (map pid ?ready2)" using r1_dist by (metis mset_eq_imp_distinct_iff)
      have "distinct (map pid (?p # tl ?ready2))" using d2 split by simp
      then have tl_dist: "distinct (map pid (tl ?ready2))"
        and tl_p: "pid ?p \<notin> pid ` set (tl ?ready2)" by simp_all
      have "set (tl ?ready2) \<subseteq> set ?ready2" using ne2 by (auto dest: list.set_sel(2))
      then have tl_sub1: "set (tl ?ready2) \<subseteq> set ?ready1" by simp
      have ts: "todo (seen @ [pid ?p]) procs = todo seen procs - burst ?p"
        using d p nd by (rule todo_step)
      have "0 \<le> todo (seen @ [pid ?p]) procs" using pos by (rule todo_nonneg)
      then have ble: "burst ?p \<le> todo seen procs" using ts by simp
      have "\<bar>t + burst ?p\<bar> \<le> 2 ^ 53" using less.prems(7,8) bp ble by linarith
      then have ex: "dadd t (burst ?p) = t + burst ?p" by (rule dadd_exact)
      have e: "sjf_loop procs t ready seen schedule
          = sjf_loop procs (t + burst ?p) (tl ?ready2) (seen @ [pid ?p]) (schedule @ [?seg])"
        using True busy nd by (subst sjf_loop.simps) (simp add: Let_def set_add_new ex)
      have c1: "0 \<le> t + burst ?p" using less.prems(7) bp by simp
      have c2: "t + burst ?p + todo (seen @ [pid ?p]) procs \<le> 2 ^ 53"
        using less.prems(8) ts by simp
      have m: "length procs - length (seen @ [pid ?p]) + nat (M - (t + burst ?p))
          < length procs - length seen + nat (M - t)"
        using True bp by simp
      have i1: "distinct (seen @ [pid ?p])" using less.prems(1) nd by simp
      have i2: "set (seen @ [pid ?p]) \<subseteq> pid ` set procs" using less.prems(2) p by auto
      have i3: "set (tl ?ready2) \<subseteq> set procs" using tl_sub1 r1_sub by blast
      have i5: "pid ` set (tl ?ready2) \<inter> set (seen @ [pid ?p]) = {}"
        using tl_sub1 r1_unseen tl_p by auto
      have i6: "\<forall>q \<in> set procs. executed (schedule @ [?seg]) (pid q)
          = (if pid q \<in> set (seen @ [pid ?p]) then burst q else 0)"
      proof
        fix q assume q: "q \<in> set procs"
        show "executed (schedule @ [?seg]) (pid q)
          = (if pid q \<in> set (seen @ [pid ?p]) then burst q else 0)"
        proof (cases "pid q = pid ?p")
          case True
          then have "q = ?p" using d q p by (rule pid_inj [rotated 3])
          then show ?thesis using less.prems(6) p nd
            by (simp add: executed_snoc seg_len_closed)
        next
          case False
          then show ?thesis using less.prems(6) q
            by (simp add: executed_snoc)
        qed
      qed
      from less.hyps [OF m i1 i2 i3 tl_dist i5 i6 c1 c2] show ?thesis unfolding e .
    qed
  qed
qed

subsection \<open>srtf\<close>

text \<open>
  While \<open>srtf\<close> runs, the last segment may be open: its length so far is counted up
  to the clock.
\<close>

definition seg_len_at :: "int \<Rightarrow> segment \<Rightarrow> int" where
  "seg_len_at t s = (case seg_end s of None \<Rightarrow> t - seg_start s | Some e \<Rightarrow> e - seg_start s)"

definition executed_at :: "int \<Rightarrow> segment list \<Rightarrow> string \<Rightarrow> int" where
  "executed_at t schedule k = sum_list (map (seg_len_at t) (filter (\<lambda>s. seg_pid s = k) schedule))"

definition all_closed :: "segment list \<Rightarrow> bool" where
  "all_closed schedule \<longleftrightarrow> list_all (\<lambda>s. seg_end s \<noteq> None) schedule"

lemma executed_at_closed: "all_closed schedule \<Longrightarrow> executed_at t schedule k = executed schedule k"
proof (induction schedule)
  case Nil
  then show ?case by (simp add: executed_at_def executed_def)
next
  case (Cons s schedule)
  then show ?case
    by (auto simp: executed_at_def executed_def all_closed_def seg_len_at_def seg_len_def js_num_def)
qed

lemma executed_at_closed_any: "all_closed schedule \<Longrightarrow> executed_at t schedule k = executed_at t' schedule k"
  by (simp add: executed_at_closed)

lemma executed_at_snoc:
  "executed_at t (schedule @ [s]) k
     = executed_at t schedule k + (if seg_pid s = k then seg_len_at t s else 0)"
  by (simp add: executed_at_def)

lemma all_closed_snoc: "all_closed (body @ [s]) \<longleftrightarrow> all_closed body \<and> seg_end s \<noteq> None"
  by (auto simp: all_closed_def)

lemma close_open_last:
  "seg_end l = None \<Longrightarrow> close_open t (body @ [l]) = body @ [l\<lparr>seg_end := Some t\<rparr>]"
  by (simp add: close_open_def)

lemma set_last_end_last: "set_last_end t (body @ [l]) = body @ [l\<lparr>seg_end := Some t\<rparr>]"
  by (simp add: set_last_end_def)

lemma sum_list_update_int:
  fixes xs :: "int list"
  shows "i < length xs \<Longrightarrow> sum_list (xs[i := v]) = sum_list xs - xs ! i + v"
proof (induction xs arbitrary: i)
  case Nil
  then show ?case by simp
next
  case (Cons x xs)
  then show ?case by (cases i) simp_all
qed

lemma sum_list_nonneg_nth:
  fixes xs :: "int list"
  shows "\<forall>i < length xs. 0 \<le> xs ! i \<Longrightarrow> 0 \<le> sum_list xs"
  by (rule sum_list_nonneg) (auto simp: in_set_conv_nth)

text \<open>
  The state of the loop is consistent: time executed so far and time remaining add up
  to the burst, and only the segment of the running process is open.
\<close>

definition srtf_inv :: "process list \<Rightarrow> int \<Rightarrow> int list \<Rightarrow> segment list \<Rightarrow> nat option \<Rightarrow> bool" where
  "srtf_inv procs t rem schedule current \<longleftrightarrow>
     length rem = length procs
     \<and> (\<forall>i < length procs. 0 \<le> rem ! i
           \<and> executed_at t schedule (pid (procs ! i)) + rem ! i = burst (procs ! i))
     \<and> (case current of
          None \<Rightarrow> all_closed schedule
        | Some c \<Rightarrow> c < length procs \<and> 0 < rem ! c \<and> arrival (procs ! c) \<le> t
            \<and> (\<exists>body l. schedule = body @ [l] \<and> all_closed body \<and> seg_end l = None
                  \<and> seg_pid l = pid (procs ! c)))"

lemma srtf_dispatch_open:
  assumes inv: "srtf_inv procs t rem schedule current"
    and k: "k < length procs" "0 < rem ! k" "arrival (procs ! k) \<le> t"
  shows "\<exists>body l. fst (srtf_dispatch procs t schedule current k) = body @ [l]
      \<and> all_closed body \<and> seg_end l = None
      \<and> seg_pid l = pid (procs ! snd (srtf_dispatch procs t schedule current k))
      \<and> snd (srtf_dispatch procs t schedule current k) < length procs
      \<and> 0 < rem ! snd (srtf_dispatch procs t schedule current k)
      \<and> arrival (procs ! snd (srtf_dispatch procs t schedule current k)) \<le> t
      \<and> (\<forall>k'. executed_at t (body @ [l]) k' = executed_at t schedule k')"
proof (cases current)
  case None
  let ?l = "\<lparr>seg_pid = pid (procs ! k), seg_start = t, seg_end = None\<rparr>"
  have c: "all_closed schedule" using inv None by (simp add: srtf_inv_def)
  have e: "srtf_dispatch procs t schedule current k = (schedule @ [?l], k)"
    using None by (simp add: srtf_dispatch_def)
  have "\<forall>k'. executed_at t (schedule @ [?l]) k' = executed_at t schedule k'"
    by (simp add: executed_at_snoc seg_len_at_def)
  then show ?thesis unfolding e using c k by auto
next
  case (Some c)
  from inv Some obtain body l where
    c: "c < length procs" "0 < rem ! c" "arrival (procs ! c) \<le> t"
    and s: "schedule = body @ [l]" "all_closed body" "seg_end l = None" "seg_pid l = pid (procs ! c)"
    by (auto simp: srtf_inv_def)
  show ?thesis
  proof (cases "pid (procs ! c) \<noteq> pid (procs ! k)")
    case True
    let ?l' = "l\<lparr>seg_end := Some t\<rparr>"
    let ?n = "\<lparr>seg_pid = pid (procs ! k), seg_start = t, seg_end = None\<rparr>"
    have e: "srtf_dispatch procs t schedule current k = ((body @ [?l']) @ [?n], k)"
      using Some True s(1,3) by (simp add: srtf_dispatch_def close_open_last)
    have cl: "all_closed (body @ [?l'])" using s(2) by (simp add: all_closed_snoc)
    have "\<forall>k'. executed_at t ((body @ [?l']) @ [?n]) k' = executed_at t schedule k'"
      unfolding s(1) using s(3) by (simp add: executed_at_def seg_len_at_def)
    then show ?thesis unfolding e using cl k by (metis fst_conv snd_conv segment.select_convs(1,3))
  next
    case False
    have e: "srtf_dispatch procs t schedule current k = (schedule, c)"
      using Some False by (simp add: srtf_dispatch_def)
    show ?thesis unfolding e using c s by auto
  qed
qed

lemma executed_at_tick:
  assumes "all_closed body" and "seg_end l = None"
  shows "executed_at (t + 1) (body @ [l]) k
       = executed_at t (body @ [l]) k + (if seg_pid l = k then 1 else 0)"
proof -
  have "executed_at (t + 1) body k = executed_at t body k"
    using assms(1) by (rule executed_at_closed_any)
  then show ?thesis using assms(2) by (simp add: executed_at_snoc seg_len_at_def)
qed

lemma srtf_tick_inv:
  assumes d: "distinct (map pid procs)"
    and inv: "srtf_inv procs t rem schedule current"
    and ne: "srtf_ready procs t rem \<noteq> []"
    and dsp: "dsp = srtf_dispatch procs t schedule current (srtf_next rem (srtf_ready procs t rem))"
    and rem1: "rem1 = rem[snd dsp := rem ! snd dsp - 1]"
  shows "snd dsp < length procs \<and> 0 < rem ! snd dsp
     \<and> (rem1 ! snd dsp = 0 \<longrightarrow> srtf_inv procs (t + 1) rem1 (set_last_end (t + 1) (fst dsp)) None)
     \<and> (rem1 ! snd dsp \<noteq> 0 \<longrightarrow> srtf_inv procs (t + 1) rem1 (fst dsp) (Some (snd dsp)))"
proof -
  let ?k = "srtf_next rem (srtf_ready procs t rem)"
  let ?cur = "snd dsp"
  have "first_shortest procs t rem ?k" using ne by (rule srtf_next_first_shortest)
  then have k: "?k < length procs" "0 < rem ! ?k" "arrival (procs ! ?k) \<le> t"
    by (simp_all add: first_shortest_def)
  from srtf_dispatch_open [OF inv k] obtain body l where
    s1: "fst dsp = body @ [l]" and cb: "all_closed body" and ol: "seg_end l = None"
    and pl: "seg_pid l = pid (procs ! ?cur)" and c: "?cur < length procs" "0 < rem ! ?cur"
      "arrival (procs ! ?cur) \<le> t"
    and same: "\<forall>k'. executed_at t (body @ [l]) k' = executed_at t schedule k'"
    unfolding dsp by blast
  from inv have len: "length rem = length procs"
    and bal: "\<forall>i < length procs. 0 \<le> rem ! i
           \<and> executed_at t schedule (pid (procs ! i)) + rem ! i = burst (procs ! i)"
    by (simp_all add: srtf_inv_def)
  have len1: "length rem1 = length procs" using len rem1 by simp
  have bal1: "0 \<le> rem1 ! i \<and> executed_at (t + 1) (body @ [l]) (pid (procs ! i)) + rem1 ! i = burst (procs ! i)"
    if i: "i < length procs" for i
  proof (cases "i = ?cur")
    case True
    have "rem1 ! i = rem ! i - 1" using True c(1) len rem1 by simp
    moreover have "executed_at (t + 1) (body @ [l]) (pid (procs ! i))
        = executed_at t schedule (pid (procs ! i)) + 1"
      using executed_at_tick [OF cb ol, of t "pid (procs ! i)"] same pl True by simp
    ultimately show ?thesis using bal i c(2) True by auto
  next
    case False
    have "pid (procs ! i) \<noteq> pid (procs ! ?cur)"
      using pid_nth_inj [OF d i c(1)] False by blast
    then have "executed_at (t + 1) (body @ [l]) (pid (procs ! i))
        = executed_at t schedule (pid (procs ! i))"
      using executed_at_tick [OF cb ol, of t "pid (procs ! i)"] same pl by simp
    moreover have "rem1 ! i = rem ! i" using False rem1 by simp
    ultimately show ?thesis using bal i by simp
  qed
  have fin: "srtf_inv procs (t + 1) rem1 (set_last_end (t + 1) (fst dsp)) None"
  proof -
    let ?l' = "l\<lparr>seg_end := Some (t + 1)\<rparr>"
    have e: "set_last_end (t + 1) (fst dsp) = body @ [?l']" unfolding s1 by (rule set_last_end_last)
    have cl: "all_closed (body @ [?l'])" using cb by (simp add: all_closed_snoc)
    have "executed_at (t + 1) (body @ [?l']) k' = executed_at (t + 1) (body @ [l]) k'" for k'
      using ol by (simp add: executed_at_snoc seg_len_at_def)
    then show ?thesis unfolding e using len1 bal1 cl by (simp add: srtf_inv_def)
  qed
  have run: "srtf_inv procs (t + 1) rem1 (fst dsp) (Some ?cur)" if nz: "rem1 ! ?cur \<noteq> 0"
  proof -
    have "0 < rem1 ! ?cur" using bal1 [OF c(1)] nz by simp
    moreover have "arrival (procs ! ?cur) \<le> t + 1" using c(3) by simp
    moreover have "\<exists>body' l'. body @ [l] = body' @ [l'] \<and> all_closed body' \<and> seg_end l' = None
                  \<and> seg_pid l' = pid (procs ! ?cur)"
      using cb ol pl by blast
    ultimately show ?thesis unfolding s1 using len1 bal1 c(1) by (simp add: srtf_inv_def)
  qed
  from c fin run show ?thesis by blast
qed

text \<open>
  The clock stays below the last arrival plus the time remaining, so \<open>t++\<close> and
  \<open>remaining--\<close> are exact.
\<close>

definition clock_ok :: "int \<Rightarrow> int \<Rightarrow> int list \<Rightarrow> bool" where
  "clock_ok M t rem \<longleftrightarrow> 0 \<le> t \<and> t + sum_list rem \<le> 2 ^ 53 \<and> M + sum_list rem \<le> 2 ^ 53"

lemma srtf_tick_idle:
  assumes "srtf_ready procs t rem = []" and "\<bar>t + 1\<bar> \<le> 2 ^ 53"
  shows "srtf_tick procs (t, rem, schedule, current) = (t + 1, rem, schedule, current)"
  using assms by (simp add: srtf_tick_def dadd_exact)

lemma srtf_tick_busy:
  assumes "srtf_ready procs t rem \<noteq> []" and "\<bar>t + 1\<bar> \<le> 2 ^ 53"
    and dsp: "dsp = srtf_dispatch procs t schedule current (srtf_next rem (srtf_ready procs t rem))"
    and "\<bar>rem ! snd dsp - 1\<bar> \<le> 2 ^ 53"
    and rem1: "rem1 = rem[snd dsp := rem ! snd dsp - 1]"
  shows "srtf_tick procs (t, rem, schedule, current)
     = (if rem1 ! snd dsp = 0 then (t + 1, rem1, set_last_end (t + 1) (fst dsp), None)
        else (t + 1, rem1, fst dsp, Some (snd dsp)))"
proof -
  have a: "dadd t 1 = t + 1" using assms(2) by (rule dadd_exact)
  have b: "dsub (rem ! snd dsp) 1 = rem ! snd dsp - 1" using assms(4) by (rule dsub_exact)
  show ?thesis
    unfolding srtf_tick_def using assms(1) by (simp add: Let_def a b dsp [symmetric] rem1 [symmetric])
qed

lemma srtf_loop_step:
  assumes "list_ex (\<lambda>r. r > 0) rem"
    and "srtf_tick procs (t, rem, schedule, current) = (t', rem', schedule', current')"
  shows "srtf_loop procs t rem schedule current = srtf_loop procs t' rem' schedule' current'"
  using assms by (subst srtf_loop.simps) (simp add: Let_def)

lemma srtf_idle_waits:
  assumes inv: "srtf_inv procs t rem schedule current"
    and more: "list_ex (\<lambda>r. r > 0) rem"
    and idle: "srtf_ready procs t rem = []"
    and bound: "\<forall>q \<in> set procs. arrival q \<le> M"
    and ck: "clock_ok M t rem"
  shows "current = None \<and> t < M \<and> \<bar>t + 1\<bar> \<le> 2 ^ 53 \<and> clock_ok M (t + 1) rem
     \<and> srtf_inv procs (t + 1) rem schedule None"
proof -
  from inv have len: "length rem = length procs"
    and bal: "\<forall>i < length procs. 0 \<le> rem ! i
           \<and> executed_at t schedule (pid (procs ! i)) + rem ! i = burst (procs ! i)"
    by (simp_all add: srtf_inv_def)
  have cn: "current = None"
  proof (cases current)
    case None
    then show ?thesis .
  next
    case (Some c)
    then have "c < length procs \<and> 0 < rem ! c \<and> arrival (procs ! c) \<le> t"
      using inv by (simp add: srtf_inv_def)
    then have "c \<in> set (srtf_ready procs t rem)" by (simp add: srtf_ready_set)
    then show ?thesis using idle by simp
  qed
  from more obtain i where i: "i < length procs" "0 < rem ! i"
    using len by (auto simp: list_ex_iff in_set_conv_nth)
  have "t < arrival (procs ! i)"
  proof (rule ccontr)
    assume "\<not> t < arrival (procs ! i)"
    then have "i \<in> set (srtf_ready procs t rem)" using i by (simp add: srtf_ready_set)
    then show False using idle by simp
  qed
  moreover have "arrival (procs ! i) \<le> M" using bound i(1) by simp
  ultimately have tM: "t < M" by simp
  have "\<forall>i < length rem. 0 \<le> rem ! i" using bal len by simp
  then have s0: "0 \<le> sum_list rem" by (rule sum_list_nonneg_nth)
  from ck have c: "0 \<le> t" "t + sum_list rem \<le> 2 ^ 53" "M + sum_list rem \<le> 2 ^ 53"
    by (simp_all add: clock_ok_def)
  have ab: "\<bar>t + 1\<bar> \<le> 2 ^ 53" using c tM s0 by linarith
  have ck': "clock_ok M (t + 1) rem" unfolding clock_ok_def using c tM by linarith
  have cl: "all_closed schedule" using inv cn by (simp add: srtf_inv_def)
  have "executed_at (t + 1) schedule k = executed_at t schedule k" for k
    using cl by (rule executed_at_closed_any)
  then have inv': "srtf_inv procs (t + 1) rem schedule None"
    using len bal cl by (simp add: srtf_inv_def)
  from cn tM ab ck' inv' show ?thesis by simp
qed

lemma srtf_busy_exact:
  assumes inv: "srtf_inv procs t rem schedule current"
    and ck: "clock_ok M t rem"
    and c: "c < length procs" "0 < rem ! c"
  shows "\<bar>t + 1\<bar> \<le> 2 ^ 53 \<and> \<bar>rem ! c - 1\<bar> \<le> 2 ^ 53 \<and> 0 < sum_list rem
     \<and> sum_list (rem[c := rem ! c - 1]) = sum_list rem - 1
     \<and> clock_ok M (t + 1) (rem[c := rem ! c - 1])"
proof -
  from inv have len: "length rem = length procs"
    and bal: "\<forall>i < length procs. 0 \<le> rem ! i
           \<and> executed_at t schedule (pid (procs ! i)) + rem ! i = burst (procs ! i)"
    by (simp_all add: srtf_inv_def)
  have nonneg: "\<forall>i < length rem. 0 \<le> rem ! i" using bal len by simp
  have le: "rem ! c \<le> sum_list rem"
    using nonneg c(1) len by (intro member_le_sum_list) (auto simp: in_set_conv_nth)
  from ck have k: "0 \<le> t" "t + sum_list rem \<le> 2 ^ 53" "M + sum_list rem \<le> 2 ^ 53"
    by (simp_all add: clock_ok_def)
  have s: "sum_list (rem[c := rem ! c - 1]) = sum_list rem - 1"
    using c(1) len by (simp add: sum_list_update_int)
  have a: "\<bar>t + 1\<bar> \<le> 2 ^ 53" using k le c(2) by linarith
  have b: "\<bar>rem ! c - 1\<bar> \<le> 2 ^ 53" using k le c(2) by linarith
  have p: "0 < sum_list rem" using le c(2) by linarith
  have ck': "clock_ok M (t + 1) (rem[c := rem ! c - 1])"
    unfolding clock_ok_def s using k by linarith
  from a b p s ck' show ?thesis by simp
qed

lemma srtf_loop_conserves:
  assumes d: "distinct (map pid procs)"
    and bound: "\<forall>q \<in> set procs. arrival q \<le> M"
  shows "srtf_inv procs t rem schedule current \<Longrightarrow> clock_ok M t rem \<Longrightarrow>
    \<exists>s. srtf_loop procs t rem schedule current = Some s \<and> all_closed s
         \<and> (\<forall>i < length procs. executed s (pid (procs ! i)) = burst (procs ! i))"
proof (induction "nat (sum_list rem) + nat (M - t)" arbitrary: t rem schedule current
    rule: less_induct)
  case less
  from less.prems have len: "length rem = length procs"
    and bal: "\<forall>i < length procs. 0 \<le> rem ! i
           \<and> executed_at t schedule (pid (procs ! i)) + rem ! i = burst (procs ! i)"
    by (simp_all add: srtf_inv_def)
  have nonneg: "\<forall>i < length rem. 0 \<le> rem ! i" using bal len by simp
  show ?case
  proof (cases "list_ex (\<lambda>r. r > 0) rem")
    case False
    then have z: "\<forall>i < length procs. rem ! i = 0"
      using bal len by (force simp: list_ex_iff in_set_conv_nth)
    have cl: "all_closed schedule"
    proof (cases current)
      case None
      then show ?thesis using less.prems by (simp add: srtf_inv_def)
    next
      case (Some c)
      then have "c < length procs \<and> 0 < rem ! c" using less.prems by (simp add: srtf_inv_def)
      then show ?thesis using z by force
    qed
    have "srtf_loop procs t rem schedule current = Some schedule"
      using False by (subst srtf_loop.simps) simp
    moreover have "\<forall>i < length procs. executed schedule (pid (procs ! i)) = burst (procs ! i)"
      using bal z executed_at_closed [OF cl, of t] by simp
    ultimately show ?thesis using cl by simp
  next
    case True
    let ?ready = "srtf_ready procs t rem"
    show ?thesis
    proof (cases "?ready = []")
      case idle: True
      from srtf_idle_waits [OF less.prems(1) True idle bound less.prems(2)]
      have cn: "current = None" and tM: "t < M" and ab: "\<bar>t + 1\<bar> \<le> 2 ^ 53"
        and ck': "clock_ok M (t + 1) rem" and inv': "srtf_inv procs (t + 1) rem schedule None"
        by simp_all
      have "srtf_tick procs (t, rem, schedule, current) = (t + 1, rem, schedule, None)"
        using srtf_tick_idle [OF idle ab] cn by simp
      with True have e: "srtf_loop procs t rem schedule current
          = srtf_loop procs (t + 1) rem schedule None"
        by (rule srtf_loop_step)
      have m: "nat (sum_list rem) + nat (M - (t + 1)) < nat (sum_list rem) + nat (M - t)"
        using tM by simp
      from less.hyps [OF m inv' ck'] show ?thesis unfolding e .
    next
      case busy: False
      define dsp where "dsp = srtf_dispatch procs t schedule current (srtf_next rem ?ready)"
      define rem1 where "rem1 = rem[snd dsp := rem ! snd dsp - 1]"
      from srtf_tick_inv [OF d less.prems(1) busy dsp_def rem1_def]
      have c: "snd dsp < length procs" "0 < rem ! snd dsp"
        and fin: "rem1 ! snd dsp = 0 \<Longrightarrow> srtf_inv procs (t + 1) rem1 (set_last_end (t + 1) (fst dsp)) None"
        and run: "rem1 ! snd dsp \<noteq> 0 \<Longrightarrow> srtf_inv procs (t + 1) rem1 (fst dsp) (Some (snd dsp))"
        by simp_all
      from srtf_busy_exact [OF less.prems(1,2) c]
      have ab: "\<bar>t + 1\<bar> \<le> 2 ^ 53" and rb: "\<bar>rem ! snd dsp - 1\<bar> \<le> 2 ^ 53"
        and sp: "0 < sum_list rem" and s1: "sum_list rem1 = sum_list rem - 1"
        and ck': "clock_ok M (t + 1) rem1"
        unfolding rem1_def by simp_all
      have m: "nat (sum_list rem1) + nat (M - (t + 1)) < nat (sum_list rem) + nat (M - t)"
        using sp s1 by simp
      note tick = srtf_tick_busy [OF busy ab dsp_def rb rem1_def]
      show ?thesis
      proof (cases "rem1 ! snd dsp = 0")
        case z: True
        have "srtf_tick procs (t, rem, schedule, current)
            = (t + 1, rem1, set_last_end (t + 1) (fst dsp), None)"
          using tick z by simp
        with True have e: "srtf_loop procs t rem schedule current
            = srtf_loop procs (t + 1) rem1 (set_last_end (t + 1) (fst dsp)) None"
          by (rule srtf_loop_step)
        from less.hyps [OF m fin [OF z] ck'] show ?thesis unfolding e .
      next
        case nz: False
        have "srtf_tick procs (t, rem, schedule, current)
            = (t + 1, rem1, fst dsp, Some (snd dsp))"
          using tick nz by simp
        with True have e: "srtf_loop procs t rem schedule current
            = srtf_loop procs (t + 1) rem1 (fst dsp) (Some (snd dsp))"
          by (rule srtf_loop_step)
        from less.hyps [OF m run [OF nz] ck'] show ?thesis unfolding e .
      qed
    qed
  qed
qed

subsection \<open>roundRobin\<close>

lemma rr_enqueue_spec:
  "i \<le> length procs \<Longrightarrow>
     \<exists>i'. rr_enqueue procs t i ready = (ready @ [i..<i'], i') \<and> i \<le> i' \<and> i' \<le> length procs
       \<and> (i' < length procs \<longrightarrow> t < arrival (procs ! i'))"
proof (induction procs t i ready rule: rr_enqueue.induct)
  case (1 procs t i ready)
  show ?case
  proof (cases "i < length procs \<and> arrival (procs ! i) \<le> t")
    case True
    then have "i + 1 \<le> length procs" by simp
    from "1.IH" [OF True this] obtain i' where
      r: "rr_enqueue procs t (i + 1) (ready @ [i]) = ((ready @ [i]) @ [i + 1..<i'], i')"
      and b: "i + 1 \<le> i'" "i' \<le> length procs" "i' < length procs \<longrightarrow> t < arrival (procs ! i')"
      by blast
    have "[i..<i'] = i # [i + 1..<i']" using b(1) by (simp add: upt_conv_Cons)
    then have "rr_enqueue procs t i ready = (ready @ [i..<i'], i')"
      using True r by (subst rr_enqueue.simps) simp
    then show ?thesis using b by auto
  next
    case False
    then have "rr_enqueue procs t i ready = (ready @ [i..<i], i)"
      by (subst rr_enqueue.simps) auto
    moreover have "i < length procs \<longrightarrow> t < arrival (procs ! i)" using False by auto
    ultimately show ?thesis using "1.prems" by blast
  qed
qed

text \<open>
  The state of the loop is consistent: executed and remaining time add up to the burst,
  the queue holds exactly the admitted processes with time remaining, once each.
\<close>

definition rr_inv :: "process list \<Rightarrow> nat \<Rightarrow> nat list \<Rightarrow> int list \<Rightarrow> segment list \<Rightarrow> bool" where
  "rr_inv procs i ready rem schedule \<longleftrightarrow>
     length rem = length procs \<and> i \<le> length procs \<and> distinct ready
     \<and> set ready = {j. j < i \<and> 0 < rem ! j}
     \<and> (\<forall>j < length procs. 0 \<le> rem ! j
           \<and> executed schedule (pid (procs ! j)) + rem ! j = burst (procs ! j))
     \<and> (\<forall>j < length procs. i \<le> j \<longrightarrow> 0 < rem ! j)"

lemma rr_inv_enqueue:
  assumes "rr_inv procs i ready rem schedule" and "i \<le> i'" and "i' \<le> length procs"
  shows "rr_inv procs i' (ready @ [i..<i']) rem schedule"
proof -
  from assms(1) have len: "length rem = length procs" and d: "distinct ready"
    and s: "set ready = {j. j < i \<and> 0 < rem ! j}"
    and bal: "\<forall>j < length procs. 0 \<le> rem ! j
           \<and> executed schedule (pid (procs ! j)) + rem ! j = burst (procs ! j)"
    and fresh: "\<forall>j < length procs. i \<le> j \<longrightarrow> 0 < rem ! j"
    by (simp_all add: rr_inv_def)
  have lt: "\<forall>x \<in> set ready. x < i" unfolding s by simp
  have "set ready \<inter> set [i..<i'] = {}"
  proof (rule ccontr)
    assume "set ready \<inter> set [i..<i'] \<noteq> {}"
    then obtain x where "x \<in> set ready" "x \<in> set [i..<i']" by blast
    then have "x < i" "i \<le> x" using lt by simp_all
    then show False by simp
  qed
  then have d': "distinct (ready @ [i..<i'])" using d by simp
  have s': "set (ready @ [i..<i']) = {j. j < i' \<and> 0 < rem ! j}"
  proof (rule set_eqI)
    fix j
    have "j \<in> set (ready @ [i..<i']) \<longleftrightarrow> (j < i \<and> 0 < rem ! j) \<or> (i \<le> j \<and> j < i')"
      unfolding set_append s by simp
    also have "\<dots> \<longleftrightarrow> j < i' \<and> 0 < rem ! j"
    proof (cases "j < i")
      case True
      then show ?thesis using assms(2) by simp
    next
      case False
      then show ?thesis using fresh assms(3) by force
    qed
    finally show "j \<in> set (ready @ [i..<i']) \<longleftrightarrow> j \<in> {j. j < i' \<and> 0 < rem ! j}" by simp
  qed
  have fresh': "\<forall>j < length procs. i' \<le> j \<longrightarrow> 0 < rem ! j" using fresh assms(2) by auto
  show ?thesis using len assms(3) d' s' bal fresh' by (simp add: rr_inv_def)
qed

lemma rr_inv_run:
  assumes d: "distinct (map pid procs)"
    and inv: "rr_inv procs i ready rem schedule"
    and ne: "ready \<noteq> []"
    and run: "0 < run" "run \<le> rem ! hd ready"
  shows "rr_inv procs i
           (if 0 < rem[hd ready := rem ! hd ready - run] ! hd ready then tl ready @ [hd ready] else tl ready)
           (rem[hd ready := rem ! hd ready - run])
           (schedule @ [\<lparr>seg_pid = pid (procs ! hd ready), seg_start = t, seg_end = Some (t + run)\<rparr>])"
proof -
  let ?p = "hd ready"
  let ?rem1 = "rem[?p := rem ! ?p - run]"
  let ?seg = "\<lparr>seg_pid = pid (procs ! ?p), seg_start = t, seg_end = Some (t + run)\<rparr>"
  from inv have len: "length rem = length procs" and il: "i \<le> length procs" and dr: "distinct ready"
    and s: "set ready = {j. j < i \<and> 0 < rem ! j}"
    and bal: "\<forall>j < length procs. 0 \<le> rem ! j
           \<and> executed schedule (pid (procs ! j)) + rem ! j = burst (procs ! j)"
    and fresh: "\<forall>j < length procs. i \<le> j \<longrightarrow> 0 < rem ! j"
    by (simp_all add: rr_inv_def)
  have split: "ready = ?p # tl ready" using ne by simp
  have "?p \<in> set ready" using ne by simp
  then have p: "?p < i" "0 < rem ! ?p" using s by auto
  then have pl: "?p < length procs" "?p < length rem" using il len by simp_all
  have "distinct (?p # tl ready)" using dr split by simp
  then have ptl: "?p \<notin> set (tl ready)" and dtl: "distinct (tl ready)" by simp_all
  have "set ready = insert ?p (set (tl ready))" using split by (metis list.simps(15))
  then have stl: "set (tl ready) = {j. j < i \<and> 0 < rem ! j} - {?p}" using s ptl by auto
  have r1p: "?rem1 ! ?p = rem ! ?p - run" using pl by simp
  have r1o: "\<And>j. j \<noteq> ?p \<Longrightarrow> ?rem1 ! j = rem ! j" by simp
  let ?ready2 = "if 0 < ?rem1 ! ?p then tl ready @ [?p] else tl ready"
  have d2: "distinct ?ready2" using dtl ptl by simp
  have s2: "set ?ready2 = {j. j < i \<and> 0 < ?rem1 ! j}"
  proof (cases "0 < ?rem1 ! ?p")
    case True
    have "set ?ready2 = insert ?p ({j. j < i \<and> 0 < rem ! j} - {?p})" using True stl by simp
    also have "\<dots> = {j. j < i \<and> 0 < ?rem1 ! j}"
    proof (rule set_eqI)
      fix j show "j \<in> insert ?p ({j. j < i \<and> 0 < rem ! j} - {?p}) \<longleftrightarrow> j \<in> {j. j < i \<and> 0 < ?rem1 ! j}"
        using True p(1) r1o [of j] by (cases "j = ?p") auto
    qed
    finally show ?thesis .
  next
    case False
    have "set ?ready2 = {j. j < i \<and> 0 < rem ! j} - {?p}" using False stl by simp
    also have "\<dots> = {j. j < i \<and> 0 < ?rem1 ! j}"
    proof (rule set_eqI)
      fix j show "j \<in> {j. j < i \<and> 0 < rem ! j} - {?p} \<longleftrightarrow> j \<in> {j. j < i \<and> 0 < ?rem1 ! j}"
        using False r1o [of j] by (cases "j = ?p") auto
    qed
    finally show ?thesis .
  qed
  have bal2: "0 \<le> ?rem1 ! j
           \<and> executed (schedule @ [?seg]) (pid (procs ! j)) + ?rem1 ! j = burst (procs ! j)"
    if j: "j < length procs" for j
  proof (cases "j = ?p")
    case True
    then show ?thesis using bal j r1p run(2)
      by (simp add: executed_snoc seg_len_closed)
  next
    case False
    have "pid (procs ! ?p) \<noteq> pid (procs ! j)" using pid_nth_inj [OF d pl(1) j] False by blast
    then show ?thesis using bal j r1o [OF False]
      by (simp add: executed_snoc)
  qed
  have fresh2: "\<forall>j < length procs. i \<le> j \<longrightarrow> 0 < ?rem1 ! j"
  proof (intro allI impI)
    fix j assume "j < length procs" "i \<le> j"
    then show "0 < ?rem1 ! j" using fresh p(1) r1o [of j] by auto
  qed
  have "length ?rem1 = length procs" using len by simp
  then show ?thesis unfolding rr_inv_def using il d2 s2 bal2 fresh2 by blast
qed

lemma rr_inv_perm:
  "rr_inv procs i ready rem schedule \<Longrightarrow> mset ready' = mset ready
    \<Longrightarrow> rr_inv procs i ready' rem schedule"
proof -
  assume inv: "rr_inv procs i ready rem schedule" and m: "mset ready' = mset ready"
  from m have "set ready' = set ready" by (rule mset_eq_setD)
  moreover from m have "distinct ready' \<longleftrightarrow> distinct ready" by (rule mset_eq_imp_distinct_iff)
  ultimately show ?thesis using inv by (simp add: rr_inv_def)
qed

lemma rr_loop_conserves:
  assumes d: "distinct (map pid procs)" and q: "1 \<le> q"
    and arr: "\<forall>p \<in> set procs. 0 \<le> arrival p"
    and bound: "\<forall>p \<in> set procs. arrival p \<le> M"
  shows "rr_inv procs i ready rem schedule \<Longrightarrow> clock_ok M t rem \<Longrightarrow>
    \<exists>s. rr_loop procs q t i ready rem schedule = Some s
         \<and> (\<forall>j < length procs. executed s (pid (procs ! j)) = burst (procs ! j))"
proof (induction "2 * nat (sum_list rem)
      + (if ready = [] \<and> (i < length procs \<longrightarrow> t < arrival (procs ! i)) then 1 else 0 :: nat)"
    arbitrary: t i ready rem schedule rule: less_induct)
  case less
  from less.prems have len: "length rem = length procs" and il: "i \<le> length procs"
    and s: "set ready = {j. j < i \<and> 0 < rem ! j}"
    and bal: "\<forall>j < length procs. 0 \<le> rem ! j
           \<and> executed schedule (pid (procs ! j)) + rem ! j = burst (procs ! j)"
    by (simp_all add: rr_inv_def)
  from less.prems(2) have ck: "0 \<le> t" "t + sum_list rem \<le> 2 ^ 53" "M + sum_list rem \<le> 2 ^ 53"
    by (simp_all add: clock_ok_def)
  show ?case
  proof (cases "ready \<noteq> [] \<or> i < length procs")
    case False
    then have r: "ready = []" and i: "i = length procs" using il by simp_all
    have z: "\<forall>j < length procs. rem ! j = 0"
    proof (intro allI impI)
      fix j assume j: "j < length procs"
      have "j \<notin> set ready" using r by simp
      then have "\<not> 0 < rem ! j" unfolding s using j i by simp
      then show "rem ! j = 0" using bal j by force
    qed
    have "rr_loop procs q t i ready rem schedule = Some schedule"
      using False by (subst rr_loop.simps) simp
    then show ?thesis using bal z by simp
  next
    case True
    from rr_enqueue_spec [OF il, of t ready] obtain i1 where
      e: "rr_enqueue procs t i ready = (ready @ [i..<i1], i1)"
      and i1: "i \<le> i1" "i1 \<le> length procs" "i1 < length procs \<longrightarrow> t < arrival (procs ! i1)"
      by blast
    define ready1 where "ready1 = ready @ [i..<i1]"
    have e': "rr_enqueue procs t i ready = (ready1, i1)" using e by (simp add: ready1_def)
    show ?thesis
    proof (cases "ready1 = []")
      case idle: True
      then have r: "ready = []" and eq: "i1 = i" using i1(1) by (auto simp: ready1_def)
      have i: "i < length procs" using True r by simp
      have late: "t < arrival (procs ! i)" using i1(3) eq i by simp
      have u: "rr_loop procs q t i ready rem schedule
          = rr_loop procs q (arrival (procs ! i)) i [] rem schedule"
        using True e' idle eq i by (subst rr_loop.simps) (simp add: Let_def)
      have m: "2 * nat (sum_list rem)
          + (if ([]::nat list) = [] \<and> (i < length procs \<longrightarrow> arrival (procs ! i) < arrival (procs ! i))
             then 1 else 0 :: nat)
        < 2 * nat (sum_list rem)
          + (if ready = [] \<and> (i < length procs \<longrightarrow> t < arrival (procs ! i)) then 1 else 0 :: nat)"
        using r i late by simp
      have inv': "rr_inv procs i [] rem schedule" using less.prems(1) r by simp
      have "procs ! i \<in> set procs" using i by (rule nth_mem)
      then have "0 \<le> arrival (procs ! i)" "arrival (procs ! i) \<le> M" using arr bound by simp_all
      then have ck': "clock_ok M (arrival (procs ! i)) rem"
        unfolding clock_ok_def using ck(3) by linarith
      from less.hyps [OF m inv' ck'] show ?thesis unfolding u .
    next
      case busy: False
      let ?p = "hd ready1"
      let ?run = "min q (rem ! ?p)"
      let ?seg = "\<lparr>seg_pid = pid (procs ! ?p), seg_start = t, seg_end = Some (t + ?run)\<rparr>"
      let ?rem1 = "rem[?p := rem ! ?p - ?run]"
      have inv1: "rr_inv procs i1 ready1 rem schedule"
        unfolding ready1_def using less.prems(1) i1(1,2) by (rule rr_inv_enqueue)
      then have s1: "set ready1 = {j. j < i1 \<and> 0 < rem ! j}" by (simp add: rr_inv_def)
      have "?p \<in> set ready1" using busy by (rule hd_in_set)
      then have p: "?p < i1" "0 < rem ! ?p" unfolding s1 by simp_all
      then have pl: "?p < length rem" using i1(2) len by simp
      have run: "0 < ?run" "?run \<le> rem ! ?p" using q p(2) by simp_all
      let ?X = "if 0 < ?rem1 ! ?p then tl ready1 @ [?p] else tl ready1"
      have invX: "rr_inv procs i1 ?X ?rem1 (schedule @ [?seg])"
        using d inv1 busy run by (rule rr_inv_run)
      from rr_enqueue_spec [OF i1(2), of "t + ?run" "tl ready1"] obtain i2 where
        e1: "rr_enqueue procs (t + ?run) i1 (tl ready1) = (tl ready1 @ [i1..<i2], i2)"
        and i2: "i1 \<le> i2" "i2 \<le> length procs"
        by blast
      let ?ready2 = "if 0 < ?rem1 ! ?p then (tl ready1 @ [i1..<i2]) @ [?p] else tl ready1 @ [i1..<i2]"
      have "rr_inv procs i2 (?X @ [i1..<i2]) ?rem1 (schedule @ [?seg])"
        using invX i2 by (rule rr_inv_enqueue)
      moreover have "mset ?ready2 = mset (?X @ [i1..<i2])" by simp
      ultimately have inv2: "rr_inv procs i2 ?ready2 ?rem1 (schedule @ [?seg])"
        by (rule rr_inv_perm)
      have nonneg: "\<forall>j < length rem. 0 \<le> rem ! j" using bal len by simp
      have ple: "rem ! ?p \<le> sum_list rem"
        using nonneg pl by (intro member_le_sum_list) (auto simp: in_set_conv_nth)
      have s1': "sum_list ?rem1 = sum_list rem - ?run"
        using pl by (simp add: sum_list_update_int)
      have "\<bar>t + ?run\<bar> \<le> 2 ^ 53" using ck run ple by linarith
      then have ex1: "dadd t ?run = t + ?run" by (rule dadd_exact)
      have "\<bar>rem ! ?p - ?run\<bar> \<le> 2 ^ 53" using ck run ple by linarith
      then have ex2: "dsub (rem ! ?p) ?run = rem ! ?p - ?run" by (rule dsub_exact)
      have u: "rr_loop procs q t i ready rem schedule
          = rr_loop procs q (t + ?run) i2 ?ready2 ?rem1 (schedule @ [?seg])"
        using True e' busy e1 by (subst rr_loop.simps) (simp add: Let_def ex1 ex2)
      have ck': "clock_ok M (t + ?run) ?rem1"
        unfolding clock_ok_def s1' using ck run by linarith
      have key: "nat (sum_list ?rem1) + 1 \<le> nat (sum_list rem)" using ple s1' run by linarith
      define f' :: nat where
        "f' = (if ?ready2 = [] \<and> (i2 < length procs \<longrightarrow> t + ?run < arrival (procs ! i2)) then 1 else 0)"
      define f :: nat where
        "f = (if ready = [] \<and> (i < length procs \<longrightarrow> t < arrival (procs ! i)) then 1 else 0)"
      have "f' \<le> 1" by (simp add: f'_def)
      with key have "2 * nat (sum_list ?rem1) + f' < 2 * nat (sum_list rem) + f" by linarith
      then have m: "2 * nat (sum_list ?rem1)
          + (if ?ready2 = [] \<and> (i2 < length procs \<longrightarrow> t + ?run < arrival (procs ! i2)) then 1 else 0 :: nat)
        < 2 * nat (sum_list rem)
          + (if ready = [] \<and> (i < length procs \<longrightarrow> t < arrival (procs ! i)) then 1 else 0 :: nat)"
        unfolding f'_def f_def .
      from less.hyps [OF m inv2 ck'] show ?thesis unfolding u .
    qed
  qed
qed

lemma roundRobin_conserves:
  assumes "distinct (map pid processes)"
    and ok: "\<forall>p \<in> set processes. 0 \<le> arrival p \<and> 0 < burst p"
    and "1 \<le> quantum"
    and small: "\<forall>p \<in> set processes. arrival p + sum_list (map burst processes) \<le> 2 ^ 53"
  shows "\<exists>s. roundRobin processes quantum = Some s
         \<and> (\<forall>p \<in> set processes. executed s (pid p) = burst p)"
proof -
  let ?procs = "sort_key arrival processes"
  let ?t = "case ?procs of [] \<Rightarrow> 0 | p # _ \<Rightarrow> arrival p"
  let ?S = "sum_list (map burst processes)"
  let ?M = "2 ^ 53 - ?S"
  have arr: "\<forall>p \<in> set ?procs. 0 \<le> arrival p" using ok by simp
  have bound: "\<forall>p \<in> set ?procs. arrival p \<le> ?M" using small by auto
  have S: "sum_list (map burst ?procs) = ?S" by (rule burst_sum_sort)
  have SB: "?S \<le> 2 ^ 53" using ok small by (rule burst_sum_bound)
  have t0: "0 \<le> ?t \<and> ?t + ?S \<le> 2 ^ 53"
  proof (cases ?procs)
    case Nil
    then show ?thesis using SB by simp
  next
    case (Cons p rest)
    then have "p \<in> set ?procs" by simp
    then have "p \<in> set processes" by simp
    then show ?thesis using ok small Cons by simp
  qed
  have ck: "clock_ok ?M ?t (map burst ?procs)"
    unfolding clock_ok_def S using t0 by simp
  have "mset (map pid ?procs) = mset (map pid processes)" by simp
  then have d: "distinct (map pid ?procs)" using assms(1) by (metis mset_eq_imp_distinct_iff)
  have pos: "\<forall>j < length ?procs. 0 < burst (?procs ! j)"
  proof (intro allI impI)
    fix j assume "j < length ?procs"
    then have "?procs ! j \<in> set ?procs" by (rule nth_mem)
    then show "0 < burst (?procs ! j)" using ok by simp
  qed
  have inv: "rr_inv ?procs 0 [] (map burst ?procs) []"
    using pos by (simp add: rr_inv_def executed_Nil less_imp_le)
  from rr_loop_conserves [OF d assms(3) arr bound inv ck] obtain s where
    s: "rr_loop ?procs quantum ?t 0 [] (map burst ?procs) [] = Some s"
    and c: "\<forall>j < length ?procs. executed s (pid (?procs ! j)) = burst (?procs ! j)"
    by blast
  have r: "roundRobin processes quantum = Some s"
    using s by (simp add: roundRobin_def Let_def)
  have "\<forall>p \<in> set processes. executed s (pid p) = burst p"
  proof
    fix p assume "p \<in> set processes"
    then have "p \<in> set ?procs" by simp
    then obtain j where "j < length ?procs" "?procs ! j = p" by (metis in_set_conv_nth)
    then show "executed s (pid p) = burst p" using c by auto
  qed
  with r show ?thesis by blast
qed

subsection \<open>The five schedulers together\<close>

text \<open>
  With every arrival plus the sum of all bursts within \<open>2^53\<close>, the arrivals are bounded
  by \<open>2^53\<close> less the sum of the bursts, and the clock starts within the bound.
\<close>

lemma start_ok:
  assumes ok: "\<forall>p \<in> set processes. 0 \<le> arrival p \<and> 0 < burst p"
    and small: "\<forall>p \<in> set processes. arrival p + sum_list (map burst processes) \<le> 2 ^ 53"
  shows "(\<forall>q \<in> set processes. arrival q \<le> 2 ^ 53 - sum_list (map burst processes))
     \<and> 0 \<le> min_arrival processes
     \<and> min_arrival processes + sum_list (map burst processes) \<le> 2 ^ 53"
proof -
  have "\<forall>q \<in> set processes. arrival q \<le> 2 ^ 53 - sum_list (map burst processes)"
    using small by auto
  then show ?thesis using min_arrival_ok [OF ok small] by simp
qed

lemma sjf_conserves:
  assumes "distinct (map pid processes)"
    and ok: "\<forall>p \<in> set processes. 0 \<le> arrival p \<and> 0 < burst p"
    and small: "\<forall>p \<in> set processes. arrival p + sum_list (map burst processes) \<le> 2 ^ 53"
  shows "\<exists>s. sjf processes = Some s \<and> (\<forall>p \<in> set processes. executed s (pid p) = burst p)"
proof -
  let ?M = "2 ^ 53 - sum_list (map burst processes)"
  from start_ok [OF ok small] have M: "\<forall>q \<in> set processes. arrival q \<le> ?M"
    and t0: "0 \<le> min_arrival processes"
      "min_arrival processes + sum_list (map burst processes) \<le> 2 ^ 53"
    by simp_all
  have pos: "\<forall>p \<in> set processes. 0 < burst p" using ok by simp
  have small': "?M + sum_list (map burst processes) \<le> 2 ^ 53" by simp
  have t1: "min_arrival processes + todo [] processes \<le> 2 ^ 53"
    unfolding todo_Nil by (rule t0(2))
  have "\<exists>s. sjf_loop processes (min_arrival processes) [] [] [] = Some s
         \<and> (\<forall>q \<in> set processes. executed s (pid q) = burst q)"
    using assms(1) pos M small' _ _ _ _ _ _ t0(1) t1
    by (rule sjf_loop_conserves) (simp_all add: executed_Nil)
  then show ?thesis by (simp add: sjf_def)
qed

lemma priority_conserves:
  assumes "distinct (map pid processes)"
    and ok: "\<forall>p \<in> set processes. 0 \<le> arrival p \<and> 0 < burst p"
    and small: "\<forall>p \<in> set processes. arrival p + sum_list (map burst processes) \<le> 2 ^ 53"
  shows "\<exists>s. priorityNonPreemptive processes = Some s
           \<and> (\<forall>p \<in> set processes. executed s (pid p) = burst p)"
proof -
  let ?M = "2 ^ 53 - sum_list (map burst processes)"
  from start_ok [OF ok small] have M: "\<forall>q \<in> set processes. arrival q \<le> ?M"
    and t0: "0 \<le> min_arrival processes"
      "min_arrival processes + sum_list (map burst processes) \<le> 2 ^ 53"
    by simp_all
  have pos: "\<forall>p \<in> set processes. 0 < burst p" using ok by simp
  have small': "?M + sum_list (map burst processes) \<le> 2 ^ 53" by simp
  have t1: "min_arrival processes + todo [] processes \<le> 2 ^ 53"
    unfolding todo_Nil by (rule t0(2))
  have "\<exists>s. priority_loop processes (min_arrival processes) [] [] = Some s
         \<and> (\<forall>q \<in> set processes. executed s (pid q) = burst q)"
    using assms(1) pos M small' _ _ _ t0(1) t1
    by (rule priority_loop_conserves) (simp_all add: executed_Nil)
  then show ?thesis by (simp add: priorityNonPreemptive_def)
qed

lemma srtf_start:
  assumes ok: "\<forall>p \<in> set processes. 0 \<le> arrival p \<and> 0 < burst p"
    and small: "\<forall>p \<in> set processes. arrival p + sum_list (map burst processes) \<le> 2 ^ 53"
  shows "srtf_inv processes (min_arrival processes) (map burst processes) [] None
     \<and> clock_ok (2 ^ 53 - sum_list (map burst processes)) (min_arrival processes) (map burst processes)"
proof -
  have pos: "\<forall>i < length processes. 0 \<le> burst (processes ! i)"
  proof (intro allI impI)
    fix i assume "i < length processes"
    then have "processes ! i \<in> set processes" by (rule nth_mem)
    then show "0 \<le> burst (processes ! i)" using ok by force
  qed
  have inv: "srtf_inv processes (min_arrival processes) (map burst processes) [] None"
    using pos by (simp add: srtf_inv_def all_closed_def executed_at_def)
  have "clock_ok (2 ^ 53 - sum_list (map burst processes)) (min_arrival processes) (map burst processes)"
    unfolding clock_ok_def using start_ok [OF ok small] by simp
  with inv show ?thesis by simp
qed

lemma srtf_conserves:
  assumes "distinct (map pid processes)"
    and ok: "\<forall>p \<in> set processes. 0 \<le> arrival p \<and> 0 < burst p"
    and small: "\<forall>p \<in> set processes. arrival p + sum_list (map burst processes) \<le> 2 ^ 53"
  shows "\<exists>s. srtf processes = Some s \<and> all_closed s
           \<and> (\<forall>p \<in> set processes. executed s (pid p) = burst p)"
proof -
  let ?M = "2 ^ 53 - sum_list (map burst processes)"
  let ?t = "min_arrival processes"
  from start_ok [OF ok small] have M: "\<forall>q \<in> set processes. arrival q \<le> ?M" by simp
  from srtf_start [OF ok small] have inv: "srtf_inv processes ?t (map burst processes) [] None"
    and ck: "clock_ok ?M ?t (map burst processes)" by simp_all
  from srtf_loop_conserves [OF assms(1) M inv ck] obtain s where
    s: "srtf_loop processes ?t (map burst processes) [] None = Some s" "all_closed s"
    and c: "\<forall>i < length processes. executed s (pid (processes ! i)) = burst (processes ! i)"
    by blast
  have "\<forall>p \<in> set processes. executed s (pid p) = burst p"
  proof
    fix p assume "p \<in> set processes"
    then obtain j where "j < length processes" "processes ! j = p" by (metis in_set_conv_nth)
    then show "executed s (pid p) = burst p" using c by auto
  qed
  with s show ?thesis by (simp add: srtf_def)
qed

text \<open>
  Claim C1, as stated, puts no bound on the times. The times of the program are
  doubles, exact on the integers up to \<open>2^53\<close> only: for a process arriving at \<open>2^53\<close>
  with burst 1 the end \<open>2^53 + 1\<close> of its segment is rounded to \<open>2^53\<close>, so the segment
  of each of the five schedulers has length 0, not the burst.
\<close>

theorem conservation_counterexample_C1:
  "distinct (map pid [\<lparr>pid = ''P1'', arrival = 9007199254740992, burst = 1, priority = None\<rparr>])
   \<and> (0 :: int) \<le> arrival \<lparr>pid = ''P1'', arrival = 9007199254740992, burst = 1, priority = None\<rparr>
   \<and> (0 :: int) < burst \<lparr>pid = ''P1'', arrival = 9007199254740992, burst = 1, priority = None\<rparr>
   \<and> fcfs [\<lparr>pid = ''P1'', arrival = 9007199254740992, burst = 1, priority = None\<rparr>]
       = [\<lparr>seg_pid = ''P1'', seg_start = 9007199254740992, seg_end = Some 9007199254740992\<rparr>]
   \<and> executed (fcfs [\<lparr>pid = ''P1'', arrival = 9007199254740992, burst = 1, priority = None\<rparr>]) ''P1'' = 0
   \<and> burst \<lparr>pid = ''P1'', arrival = 9007199254740992, burst = 1, priority = None\<rparr> = 1
   \<and> sjf [\<lparr>pid = ''P1'', arrival = 9007199254740992, burst = 1, priority = None\<rparr>]
       = Some [\<lparr>seg_pid = ''P1'', seg_start = 9007199254740992, seg_end = Some 9007199254740992\<rparr>]
   \<and> srtf [\<lparr>pid = ''P1'', arrival = 9007199254740992, burst = 1, priority = None\<rparr>]
       = Some [\<lparr>seg_pid = ''P1'', seg_start = 9007199254740992, seg_end = Some 9007199254740992\<rparr>]
   \<and> priorityNonPreemptive [\<lparr>pid = ''P1'', arrival = 9007199254740992, burst = 1, priority = None\<rparr>]
       = Some [\<lparr>seg_pid = ''P1'', seg_start = 9007199254740992, seg_end = Some 9007199254740992\<rparr>]
   \<and> roundRobin [\<lparr>pid = ''P1'', arrival = 9007199254740992, burst = 1, priority = None\<rparr>] 1
       = Some [\<lparr>seg_pid = ''P1'', seg_start = 9007199254740992, seg_end = Some 9007199254740992\<rparr>]"
  by code_simp

text \<open>
  Claim C1, amended. For a process list with unique pids, arrivals of at least 0 and
  bursts above 0, where every arrival plus the sum of all bursts is at most \<open>2^53\<close> (so
  that every time the schedulers compute is a number that JavaScript represents
  exactly), each of
  \<open>fcfs\<close>, \<open>sjf\<close>, \<open>srtf\<close>, \<open>priorityNonPreemptive\<close> and \<open>roundRobin\<close> (with a quantum of at
  least 1) returns a schedule, and in it the lengths \<open>end - start\<close> of the segments
  carrying a process's pid add up to that process's burst. Every segment that \<open>srtf\<close>
  returns has its end set.
\<close>

theorem conservation_C1:
  assumes "distinct (map pid processes)"
    and "\<forall>p \<in> set processes. 0 \<le> arrival p \<and> 0 < burst p"
    and "\<forall>p \<in> set processes. arrival p + sum_list (map burst processes) \<le> 2 ^ 53"
    and "1 \<le> quantum"
  shows "(\<forall>p \<in> set processes. executed (fcfs processes) (pid p) = burst p)
     \<and> (\<exists>s. sjf processes = Some s \<and> (\<forall>p \<in> set processes. executed s (pid p) = burst p))
     \<and> (\<exists>s. srtf processes = Some s \<and> all_closed s
            \<and> (\<forall>p \<in> set processes. executed s (pid p) = burst p))
     \<and> (\<exists>s. priorityNonPreemptive processes = Some s
            \<and> (\<forall>p \<in> set processes. executed s (pid p) = burst p))
     \<and> (\<exists>s. roundRobin processes quantum = Some s
            \<and> (\<forall>p \<in> set processes. executed s (pid p) = burst p))"
proof -
  have a: "\<forall>p \<in> set processes. executed (fcfs processes) (pid p) = burst p"
  proof
    fix p assume "p \<in> set processes"
    with assms(1) show "executed (fcfs processes) (pid p) = burst p"
      using assms(2,3) by (rule fcfs_conserves)
  qed
  note b = sjf_conserves [OF assms(1,2,3)]
  note c = srtf_conserves [OF assms(1,2,3)]
  note d = priority_conserves [OF assms(1,2,3)]
  note e = roundRobin_conserves [OF assms(1,2,4,3)]
  from a b c d e show ?thesis by blast
qed

theorem conservation_C1_witness:
  "distinct (map pid [\<lparr>pid = ''P1'', arrival = 0, burst = 3, priority = Some 2\<rparr>,
                      \<lparr>pid = ''P2'', arrival = 1, burst = 2, priority = Some 1\<rparr>])
   \<and> list_all (\<lambda>p. 0 \<le> arrival p \<and> 0 < burst p)
        [\<lparr>pid = ''P1'', arrival = 0, burst = 3, priority = Some 2\<rparr>,
         \<lparr>pid = ''P2'', arrival = 1, burst = 2, priority = Some 1\<rparr>]
   \<and> list_all (\<lambda>p. arrival p + sum_list (map burst
          [\<lparr>pid = ''P1'', arrival = 0, burst = 3, priority = Some 2\<rparr>,
           \<lparr>pid = ''P2'', arrival = 1, burst = 2, priority = Some 1\<rparr>]) \<le> 2 ^ 53)
        [\<lparr>pid = ''P1'', arrival = 0, burst = 3, priority = Some 2\<rparr>,
         \<lparr>pid = ''P2'', arrival = 1, burst = 2, priority = Some 1\<rparr>]
   \<and> (1 :: int) \<le> 2
   \<and> executed (fcfs [\<lparr>pid = ''P1'', arrival = 0, burst = 3, priority = Some 2\<rparr>,
                     \<lparr>pid = ''P2'', arrival = 1, burst = 2, priority = Some 1\<rparr>]) ''P1'' = 3
   \<and> (\<exists>s. srtf [\<lparr>pid = ''P1'', arrival = 0, burst = 3, priority = Some 2\<rparr>,
                 \<lparr>pid = ''P2'', arrival = 1, burst = 2, priority = Some 1\<rparr>] = Some s
          \<and> executed s ''P1'' = 3 \<and> executed s ''P2'' = 2)
   \<and> (\<exists>s. roundRobin [\<lparr>pid = ''P1'', arrival = 0, burst = 3, priority = Some 2\<rparr>,
                       \<lparr>pid = ''P2'', arrival = 1, burst = 2, priority = Some 1\<rparr>] 2 = Some s
          \<and> executed s ''P1'' = 3 \<and> executed s ''P2'' = 2)"
proof -
  let ?ps = "[\<lparr>pid = ''P1'', arrival = 0, burst = 3, priority = Some 2\<rparr>,
              \<lparr>pid = ''P2'', arrival = 1, burst = 2, priority = Some 1\<rparr>]"
  have h1: "distinct (map pid ?ps)" by simp
  have h2: "\<forall>p \<in> set ?ps. 0 \<le> arrival p \<and> 0 < burst p" by simp
  have h3: "(1 :: int) \<le> 2" by simp
  have h4: "\<forall>p \<in> set ?ps. arrival p + sum_list (map burst ?ps) \<le> 2 ^ 53" by simp
  note c = conservation_C1 [OF h1 h2 h4 h3]
  from c have f: "\<forall>p \<in> set ?ps. executed (fcfs ?ps) (pid p) = burst p" by blast
  from c obtain s where s: "srtf ?ps = Some s" "\<forall>p \<in> set ?ps. executed s (pid p) = burst p"
    by blast
  from c obtain r where r: "roundRobin ?ps 2 = Some r" "\<forall>p \<in> set ?ps. executed r (pid p) = burst p"
    by blast
  have f1: "executed (fcfs ?ps) ''P1'' = 3" using f by simp
  have s1: "executed s ''P1'' = 3 \<and> executed s ''P2'' = 2" using s(2) by simp
  have r1: "executed r ''P1'' = 3 \<and> executed r ''P2'' = 2" using r(2) by simp
  from h1 h3 f1 s(1) s1 r(1) r1 show ?thesis by simp
qed

section \<open>The tie of SRTF\<close>

text \<open>
  The state of the loop of \<open>srtf\<close> after \<open>n\<close> passes: the clock, the remaining times, the
  schedule and the running process. Once the loop has ended, the state stays.
\<close>

fun srtf_after :: "process list \<Rightarrow> nat \<Rightarrow> srtf_state" where
  "srtf_after procs 0 = (min_arrival procs, map burst procs, [], None)"
| "srtf_after procs (Suc n) =
     (case srtf_after procs n of (t, rem, schedule, current) \<Rightarrow>
        if list_ex (\<lambda>r. r > 0) rem then srtf_tick procs (t, rem, schedule, current)
        else (t, rem, schedule, current))"

text \<open>
  In a list ordered by arrival, every unfinished process before the running one has
  more time remaining than it.
\<close>

definition srtf_front :: "int list \<Rightarrow> nat option \<Rightarrow> bool" where
  "srtf_front rem current \<longleftrightarrow>
     (case current of None \<Rightarrow> True | Some c \<Rightarrow> \<forall>i < c. 0 < rem ! i \<longrightarrow> rem ! c < rem ! i)"

lemma srtf_after_loop:
  "srtf_after procs n = (t, rem, schedule, current)
     \<Longrightarrow> srtf procs = srtf_loop procs t rem schedule current"
proof (induction n arbitrary: t rem schedule current)
  case 0
  then show ?case by (simp add: srtf_def)
next
  case (Suc n)
  obtain t0 rem0 s0 c0 where st: "srtf_after procs n = (t0, rem0, s0, c0)"
    by (metis prod_cases4)
  have ih: "srtf procs = srtf_loop procs t0 rem0 s0 c0" using st by (rule Suc.IH)
  show ?case
  proof (cases "list_ex (\<lambda>r. r > 0) rem0")
    case True
    then have "srtf_tick procs (t0, rem0, s0, c0) = (t, rem, schedule, current)"
      using Suc.prems st by simp
    with True have "srtf_loop procs t0 rem0 s0 c0 = srtf_loop procs t rem schedule current"
      by (rule srtf_loop_step)
    then show ?thesis using ih by simp
  next
    case False
    then have "(t0, rem0, s0, c0) = (t, rem, schedule, current)" using Suc.prems st by simp
    then show ?thesis using ih by simp
  qed
qed

lemma srtf_dispatch_first:
  assumes d: "distinct (map pid procs)"
    and inv: "srtf_inv procs t rem schedule current"
    and k: "k < length procs"
  shows "srtf_dispatch procs t schedule current k
     = (if current = Some k then schedule
        else (case current of None \<Rightarrow> schedule | Some c \<Rightarrow> close_open t schedule)
               @ [\<lparr>seg_pid = pid (procs ! k), seg_start = t, seg_end = None\<rparr>],
        k)"
proof (cases current)
  case None
  then show ?thesis by (simp add: srtf_dispatch_def)
next
  case (Some c)
  then have c: "c < length procs" using inv by (simp add: srtf_inv_def)
  have "pid (procs ! c) = pid (procs ! k) \<longleftrightarrow> c = k"
    using pid_nth_inj [OF d c k] by blast
  then show ?thesis using Some by (simp add: srtf_dispatch_def)
qed

lemma srtf_tick_explicit:
  assumes d: "distinct (map pid procs)"
    and inv: "srtf_inv procs t rem schedule current"
    and ck: "clock_ok M t rem"
    and busy: "srtf_ready procs t rem \<noteq> []"
    and k: "k = srtf_next rem (srtf_ready procs t rem)"
  shows "srtf_tick procs (t, rem, schedule, current)
     = (t + 1, rem[k := rem ! k - 1],
        (if rem ! k = 1 then set_last_end (t + 1) else (\<lambda>s. s))
          (if current = Some k then schedule
           else (case current of None \<Rightarrow> schedule | Some c \<Rightarrow> close_open t schedule)
                  @ [\<lparr>seg_pid = pid (procs ! k), seg_start = t, seg_end = None\<rparr>]),
        if rem ! k = 1 then None else Some k)"
proof -
  have fs: "first_shortest procs t rem k" unfolding k using busy by (rule srtf_next_first_shortest)
  then have kl: "k < length procs" and kp: "0 < rem ! k" by (simp_all add: first_shortest_def)
  have len: "length rem = length procs" using inv by (simp add: srtf_inv_def)
  define dsp where "dsp = srtf_dispatch procs t schedule current (srtf_next rem (srtf_ready procs t rem))"
  have dsp: "dsp = (if current = Some k then schedule
        else (case current of None \<Rightarrow> schedule | Some c \<Rightarrow> close_open t schedule)
               @ [\<lparr>seg_pid = pid (procs ! k), seg_start = t, seg_end = None\<rparr>], k)"
    unfolding dsp_def k [symmetric] using d inv kl by (rule srtf_dispatch_first)
  then have sk: "snd dsp = k" by simp
  define rem1 where "rem1 = rem[snd dsp := rem ! snd dsp - 1]"
  from srtf_busy_exact [OF inv ck kl kp]
  have ab: "\<bar>t + 1\<bar> \<le> 2 ^ 53" and rb: "\<bar>rem ! snd dsp - 1\<bar> \<le> 2 ^ 53"
    unfolding sk by simp_all
  note tick = srtf_tick_busy [OF busy ab dsp_def rb rem1_def]
  have r1: "rem1 = rem[k := rem ! k - 1]" unfolding rem1_def sk ..
  have "rem1 ! k = rem ! k - 1" unfolding r1 using kl len by simp
  then have z: "rem1 ! snd dsp = 0 \<longleftrightarrow> rem ! k = 1" unfolding sk by auto
  show ?thesis unfolding tick z unfolding r1 [symmetric] using dsp by simp
qed

lemma srtf_tick_keeps:
  assumes d: "distinct (map pid procs)"
    and bound: "\<forall>q \<in> set procs. arrival q \<le> M"
    and inv: "srtf_inv procs t rem schedule current"
    and ck: "clock_ok M t rem"
    and more: "list_ex (\<lambda>r. r > 0) rem"
  shows "\<exists>t' rem' schedule' current'.
      srtf_tick procs (t, rem, schedule, current) = (t', rem', schedule', current')
      \<and> srtf_inv procs t' rem' schedule' current' \<and> clock_ok M t' rem'
      \<and> (sorted (map arrival procs) \<longrightarrow> srtf_front rem' current')"
proof (cases "srtf_ready procs t rem = []")
  case idle: True
  from srtf_idle_waits [OF inv more idle bound ck]
  have cn: "current = None" and ab: "\<bar>t + 1\<bar> \<le> 2 ^ 53"
    and ck': "clock_ok M (t + 1) rem" and inv': "srtf_inv procs (t + 1) rem schedule None"
    by simp_all
  have "srtf_tick procs (t, rem, schedule, current) = (t + 1, rem, schedule, None)"
    using srtf_tick_idle [OF idle ab] cn by simp
  moreover have "srtf_front rem None" by (simp add: srtf_front_def)
  ultimately show ?thesis using inv' ck' by blast
next
  case busy: False
  define k where "k = srtf_next rem (srtf_ready procs t rem)"
  have fs: "first_shortest procs t rem k"
    unfolding k_def using busy by (rule srtf_next_first_shortest)
  then have kl: "k < length procs" and kp: "0 < rem ! k" and ka: "arrival (procs ! k) \<le> t"
    and first: "\<forall>i < k. arrival (procs ! i) \<le> t \<and> 0 < rem ! i \<longrightarrow> rem ! k < rem ! i"
    by (simp_all add: first_shortest_def)
  have len: "length rem = length procs" using inv by (simp add: srtf_inv_def)
  define dsp where "dsp = srtf_dispatch procs t schedule current (srtf_next rem (srtf_ready procs t rem))"
  have "dsp = (if current = Some k then schedule
        else (case current of None \<Rightarrow> schedule | Some c \<Rightarrow> close_open t schedule)
               @ [\<lparr>seg_pid = pid (procs ! k), seg_start = t, seg_end = None\<rparr>], k)"
    unfolding dsp_def k_def [symmetric] using d inv kl by (rule srtf_dispatch_first)
  then have sk: "snd dsp = k" by simp
  define rem1 where "rem1 = rem[snd dsp := rem ! snd dsp - 1]"
  from srtf_tick_inv [OF d inv busy dsp_def rem1_def]
  have fin: "rem1 ! snd dsp = 0 \<Longrightarrow> srtf_inv procs (t + 1) rem1 (set_last_end (t + 1) (fst dsp)) None"
    and run: "rem1 ! snd dsp \<noteq> 0 \<Longrightarrow> srtf_inv procs (t + 1) rem1 (fst dsp) (Some (snd dsp))"
    by simp_all
  from srtf_busy_exact [OF inv ck kl kp]
  have ab: "\<bar>t + 1\<bar> \<le> 2 ^ 53" and rb: "\<bar>rem ! snd dsp - 1\<bar> \<le> 2 ^ 53"
    and ck': "clock_ok M (t + 1) rem1"
    unfolding rem1_def sk by simp_all
  note tick = srtf_tick_busy [OF busy ab dsp_def rb rem1_def]
  have front: "srtf_front rem1 (Some k)" if sorted: "sorted (map arrival procs)"
  proof -
    have "rem1 ! k < rem1 ! i" if i: "i < k" and ip: "0 < rem1 ! i" for i
    proof -
      have ri: "rem1 ! i = rem ! i" unfolding rem1_def sk using i by simp
      have rk: "rem1 ! k = rem ! k - 1" unfolding rem1_def sk using kl len by simp
      have "map arrival procs ! i \<le> map arrival procs ! k"
        using sorted i kl by (intro sorted_nth_mono) simp_all
      then have "arrival (procs ! i) \<le> arrival (procs ! k)" using i kl by simp
      then have "arrival (procs ! i) \<le> t" using ka by simp
      then have "rem ! k < rem ! i" using first i ip ri by simp
      then show ?thesis using ri rk by simp
    qed
    then show ?thesis by (simp add: srtf_front_def)
  qed
  show ?thesis
  proof (cases "rem1 ! snd dsp = 0")
    case z: True
    have "srtf_tick procs (t, rem, schedule, current)
        = (t + 1, rem1, set_last_end (t + 1) (fst dsp), None)"
      using tick z by simp
    moreover have "srtf_front rem1 None" by (simp add: srtf_front_def)
    ultimately show ?thesis using fin [OF z] ck' by blast
  next
    case nz: False
    have "srtf_tick procs (t, rem, schedule, current) = (t + 1, rem1, fst dsp, Some (snd dsp))"
      using tick nz by simp
    moreover have "sorted (map arrival procs) \<longrightarrow> srtf_front rem1 (Some (snd dsp))"
      unfolding sk using front by blast
    ultimately show ?thesis using run [OF nz] ck' by blast
  qed
qed

lemma srtf_after_inv:
  assumes d: "distinct (map pid processes)"
    and ok: "\<forall>p \<in> set processes. 0 \<le> arrival p \<and> 0 < burst p"
    and small: "\<forall>p \<in> set processes. arrival p + sum_list (map burst processes) \<le> 2 ^ 53"
  shows "srtf_after processes n = (t, rem, schedule, current) \<Longrightarrow>
    srtf_inv processes t rem schedule current
    \<and> clock_ok (2 ^ 53 - sum_list (map burst processes)) t rem
    \<and> (sorted (map arrival processes) \<longrightarrow> srtf_front rem current)"
proof (induction n arbitrary: t rem schedule current)
  case 0
  then have e: "t = min_arrival processes" "rem = map burst processes" "schedule = []"
    "current = None" by simp_all
  show ?case unfolding e using srtf_start [OF ok small] by (simp add: srtf_front_def)
next
  case (Suc n)
  let ?M = "2 ^ 53 - sum_list (map burst processes)"
  obtain t0 rem0 s0 c0 where st: "srtf_after processes n = (t0, rem0, s0, c0)"
    by (metis prod_cases4)
  from Suc.IH [OF st] have inv: "srtf_inv processes t0 rem0 s0 c0"
    and ck: "clock_ok ?M t0 rem0"
    and fr: "sorted (map arrival processes) \<longrightarrow> srtf_front rem0 c0"
    by simp_all
  from start_ok [OF ok small] have M: "\<forall>q \<in> set processes. arrival q \<le> ?M" by simp
  show ?case
  proof (cases "list_ex (\<lambda>r. r > 0) rem0")
    case True
    then have "srtf_tick processes (t0, rem0, s0, c0) = (t, rem, schedule, current)"
      using Suc.prems st by simp
    then show ?thesis using srtf_tick_keeps [OF d M inv ck True] by simp
  next
    case False
    then have "(t0, rem0, s0, c0) = (t, rem, schedule, current)" using Suc.prems st by simp
    then show ?thesis using inv ck fr by simp
  qed
qed

text \<open>
  Claim C3, as stated, lets the running process keep the CPU whenever its remaining time
  equals the minimum. With A (arrival 2, burst 2) listed before B (arrival 0, burst 4),
  B runs from 0; at tick 2 both have 2 left, the sort puts A first, and B is preempted.
\<close>

theorem srtf_tie_counterexample_C3:
  "srtf [\<lparr>pid = ''A'', arrival = 2, burst = 2, priority = None\<rparr>,
         \<lparr>pid = ''B'', arrival = 0, burst = 4, priority = None\<rparr>]
     = Some [\<lparr>seg_pid = ''B'', seg_start = 0, seg_end = Some 2\<rparr>,
             \<lparr>seg_pid = ''A'', seg_start = 2, seg_end = Some 4\<rparr>,
             \<lparr>seg_pid = ''B'', seg_start = 4, seg_end = Some 6\<rparr>]
   \<and> srtf_loop [\<lparr>pid = ''A'', arrival = 2, burst = 2, priority = None\<rparr>,
                \<lparr>pid = ''B'', arrival = 0, burst = 4, priority = None\<rparr>] 0 [2, 4] [] None
     = srtf_loop [\<lparr>pid = ''A'', arrival = 2, burst = 2, priority = None\<rparr>,
                  \<lparr>pid = ''B'', arrival = 0, burst = 4, priority = None\<rparr>] 2 [2, 2]
         [\<lparr>seg_pid = ''B'', seg_start = 0, seg_end = None\<rparr>] (Some 1)
   \<and> srtf_ready [\<lparr>pid = ''A'', arrival = 2, burst = 2, priority = None\<rparr>,
                 \<lparr>pid = ''B'', arrival = 0, burst = 4, priority = None\<rparr>] 2 [2, 2] = [0, 1]
   \<and> srtf_next [2, 2] [0, 1] = 0"
  by code_simp

text \<open>
  Claim C3, amended. Take a process list with unique pids, arrivals of at least 0 and
  bursts above 0, every arrival plus the sum of all bursts at most \<open>2^53\<close>, and a state
  that the loop of \<open>srtf\<close> reaches in which some arrived process is unfinished. The
  process \<open>k\<close> selected at this tick is the first in input order among the arrived
  unfinished processes of least remaining time. When the list is ordered by arrival and
  the remaining time of the running process equals that minimum, the running process is
  the selected one. The selected pid is the running pid exactly when the selected process
  is the running one, and then the tick leaves the schedule as it is (closing the last
  segment when the process finishes) and opens no segment; otherwise the tick closes the
  open segment, if a process is running, and opens one segment for the selected pid at
  the clock. The tick runs the selected process for one unit, and the loop of \<open>srtf\<close>
  continues from the state so described.
\<close>

theorem srtf_tie_C3:
  assumes "distinct (map pid processes)"
    and "\<forall>p \<in> set processes. 0 \<le> arrival p \<and> 0 < burst p"
    and "\<forall>p \<in> set processes. arrival p + sum_list (map burst processes) \<le> 2 ^ 53"
    and "srtf_after processes n = (t, rem, schedule, current)"
    and "srtf_ready processes t rem \<noteq> []"
    and "k = srtf_next rem (srtf_ready processes t rem)"
    and "schedule1 = (if current = Some k then schedule
           else (case current of None \<Rightarrow> schedule | Some c \<Rightarrow> close_open t schedule)
                  @ [\<lparr>seg_pid = pid (processes ! k), seg_start = t, seg_end = None\<rparr>])"
  shows "srtf processes = srtf_loop processes t rem schedule current
    \<and> first_shortest processes t rem k
    \<and> (sorted (map arrival processes)
         \<and> (\<exists>c. current = Some c \<and> (\<forall>i \<in> set (srtf_ready processes t rem). rem ! c \<le> rem ! i))
       \<longrightarrow> current = Some k)
    \<and> ((\<exists>c. current = Some c \<and> pid (processes ! c) = pid (processes ! k)) \<longleftrightarrow> current = Some k)
    \<and> srtf_tick processes (t, rem, schedule, current)
        = (t + 1, rem[k := rem ! k - 1],
           (if rem ! k = 1 then set_last_end (t + 1) schedule1 else schedule1),
           (if rem ! k = 1 then None else Some k))
    \<and> srtf_loop processes t rem schedule current
        = srtf_loop processes (t + 1) (rem[k := rem ! k - 1])
            (if rem ! k = 1 then set_last_end (t + 1) schedule1 else schedule1)
            (if rem ! k = 1 then None else Some k)"
proof -
  let ?ready = "srtf_ready processes t rem"
  from srtf_after_inv [OF assms(1,2,3,4)]
  have inv: "srtf_inv processes t rem schedule current"
    and ck: "clock_ok (2 ^ 53 - sum_list (map burst processes)) t rem"
    and fr: "sorted (map arrival processes) \<longrightarrow> srtf_front rem current"
    by simp_all
  have a: "srtf processes = srtf_loop processes t rem schedule current"
    using assms(4) by (rule srtf_after_loop)
  have fs: "first_shortest processes t rem k"
    unfolding assms(6) using assms(5) by (rule srtf_next_first_shortest)
  then have kl: "k < length processes" by (simp add: first_shortest_def)
  have keep: "current = Some k"
    if sorted: "sorted (map arrival processes)"
      and tie: "\<exists>c. current = Some c \<and> (\<forall>i \<in> set ?ready. rem ! c \<le> rem ! i)"
  proof -
    from tie obtain c where c: "current = Some c" and least: "\<forall>i \<in> set ?ready. rem ! c \<le> rem ! i"
      by blast
    from inv c have cl: "c < length processes" "0 < rem ! c" "arrival (processes ! c) \<le> t"
      by (simp_all add: srtf_inv_def)
    from fr sorted c have front: "\<forall>i < c. 0 < rem ! i \<longrightarrow> rem ! c < rem ! i"
      by (simp add: srtf_front_def)
    have "first_shortest processes t rem c"
      unfolding first_shortest_def using cl least front by (simp add: srtf_ready_set)
    with fs have "k = c" by (rule first_shortest_unique)
    then show ?thesis using c by simp
  qed
  have same: "(\<exists>c. current = Some c \<and> pid (processes ! c) = pid (processes ! k)) \<longleftrightarrow> current = Some k"
  proof
    assume "\<exists>c. current = Some c \<and> pid (processes ! c) = pid (processes ! k)"
    then obtain c where c: "current = Some c" "pid (processes ! c) = pid (processes ! k)" by blast
    from inv c(1) have "c < length processes" by (simp add: srtf_inv_def)
    with assms(1) have "c = k" using kl c(2) by (rule pid_nth_inj)
    then show "current = Some k" using c(1) by simp
  next
    assume "current = Some k"
    then show "\<exists>c. current = Some c \<and> pid (processes ! c) = pid (processes ! k)" by simp
  qed
  have tick: "srtf_tick processes (t, rem, schedule, current)
        = (t + 1, rem[k := rem ! k - 1],
           (if rem ! k = 1 then set_last_end (t + 1) schedule1 else schedule1),
           (if rem ! k = 1 then None else Some k))"
    using srtf_tick_explicit [OF assms(1) inv ck assms(5,6)] assms(7) by simp
  have more: "list_ex (\<lambda>r. r > 0) rem"
  proof -
    have "k \<in> set ?ready" using fs by (simp add: srtf_ready_set first_shortest_def)
    moreover have "length rem = length processes" using inv by (simp add: srtf_inv_def)
    ultimately have "rem ! k \<in> set rem \<and> 0 < rem ! k" by (simp add: srtf_ready_set)
    then show ?thesis unfolding list_ex_iff by blast
  qed
  note loop = srtf_loop_step [OF more tick]
  from a fs keep same tick loop show ?thesis by blast
qed

theorem srtf_tie_C3_witness:
  "distinct (map pid [\<lparr>pid = ''B'', arrival = 0, burst = 4, priority = None\<rparr>,
                      \<lparr>pid = ''A'', arrival = 2, burst = 2, priority = None\<rparr>])
   \<and> list_all (\<lambda>p. 0 \<le> arrival p \<and> 0 < burst p)
        [\<lparr>pid = ''B'', arrival = 0, burst = 4, priority = None\<rparr>,
         \<lparr>pid = ''A'', arrival = 2, burst = 2, priority = None\<rparr>]
   \<and> list_all (\<lambda>p. arrival p + sum_list (map burst
          [\<lparr>pid = ''B'', arrival = 0, burst = 4, priority = None\<rparr>,
           \<lparr>pid = ''A'', arrival = 2, burst = 2, priority = None\<rparr>]) \<le> 2 ^ 53)
        [\<lparr>pid = ''B'', arrival = 0, burst = 4, priority = None\<rparr>,
         \<lparr>pid = ''A'', arrival = 2, burst = 2, priority = None\<rparr>]
   \<and> srtf_after [\<lparr>pid = ''B'', arrival = 0, burst = 4, priority = None\<rparr>,
                 \<lparr>pid = ''A'', arrival = 2, burst = 2, priority = None\<rparr>] 2
       = (2, [2, 2], [\<lparr>seg_pid = ''B'', seg_start = 0, seg_end = None\<rparr>], Some 0)
   \<and> srtf_ready [\<lparr>pid = ''B'', arrival = 0, burst = 4, priority = None\<rparr>,
                 \<lparr>pid = ''A'', arrival = 2, burst = 2, priority = None\<rparr>] 2 [2, 2] = [0, 1]
   \<and> sorted (map arrival [\<lparr>pid = ''B'', arrival = 0, burst = 4, priority = None\<rparr>,
                          \<lparr>pid = ''A'', arrival = 2, burst = 2, priority = None\<rparr>])
   \<and> srtf_next [2, 2] [0, 1] = 0
   \<and> srtf_tick [\<lparr>pid = ''B'', arrival = 0, burst = 4, priority = None\<rparr>,
                \<lparr>pid = ''A'', arrival = 2, burst = 2, priority = None\<rparr>]
        (2, [2, 2], [\<lparr>seg_pid = ''B'', seg_start = 0, seg_end = None\<rparr>], Some 0)
       = (3, [1, 2], [\<lparr>seg_pid = ''B'', seg_start = 0, seg_end = None\<rparr>], Some 0)
   \<and> srtf [\<lparr>pid = ''B'', arrival = 0, burst = 4, priority = None\<rparr>,
           \<lparr>pid = ''A'', arrival = 2, burst = 2, priority = None\<rparr>]
       = srtf_loop [\<lparr>pid = ''B'', arrival = 0, burst = 4, priority = None\<rparr>,
                    \<lparr>pid = ''A'', arrival = 2, burst = 2, priority = None\<rparr>]
           3 [1, 2] [\<lparr>seg_pid = ''B'', seg_start = 0, seg_end = None\<rparr>] (Some 0)"
proof -
  let ?ps = "[\<lparr>pid = ''B'', arrival = 0, burst = 4, priority = None\<rparr>,
              \<lparr>pid = ''A'', arrival = 2, burst = 2, priority = None\<rparr>]"
  let ?open = "[\<lparr>seg_pid = ''B'', seg_start = 0, seg_end = None\<rparr>]"
  let ?k = "srtf_next [2, 2] (srtf_ready ?ps 2 [2, 2])"
  have h1: "distinct (map pid ?ps)" by simp
  have h2: "\<forall>p \<in> set ?ps. 0 \<le> arrival p \<and> 0 < burst p" by simp
  have h3: "\<forall>p \<in> set ?ps. arrival p + sum_list (map burst ?ps) \<le> 2 ^ 53" by simp
  have h4: "srtf_after ?ps 2 = (2, [2, 2], ?open, Some 0)" by code_simp
  have r: "srtf_ready ?ps 2 [2, 2] = [0, 1]" by code_simp
  have h5: "srtf_ready ?ps 2 [2, 2] \<noteq> []" by (simp add: r)
  have so: "sorted (map arrival ?ps)" by simp
  have tie: "\<exists>c. Some (0 :: nat) = Some c \<and> (\<forall>i \<in> set (srtf_ready ?ps 2 [2, 2]). [2, 2 :: int] ! c \<le> [2, 2] ! i)"
    unfolding r by simp
  note c = srtf_tie_C3 [OF h1 h2 h3 h4 h5 refl refl]
  from c so tie have "Some (0 :: nat) = Some ?k" by blast
  then have k: "?k = 0" by simp
  have n: "srtf_next [2, 2] [0, 1] = 0" using k unfolding r .
  from c have "srtf_tick ?ps (2, [2, 2], ?open, Some 0)
      = (2 + 1, [2, 2][?k := [2, 2] ! ?k - 1],
         (if [2, 2 :: int] ! ?k = 1
          then set_last_end (2 + 1) (if Some 0 = Some ?k then ?open
             else (case Some (0 :: nat) of None \<Rightarrow> ?open | Some c \<Rightarrow> close_open 2 ?open)
                    @ [\<lparr>seg_pid = pid (?ps ! ?k), seg_start = 2, seg_end = None\<rparr>])
          else (if Some 0 = Some ?k then ?open
             else (case Some (0 :: nat) of None \<Rightarrow> ?open | Some c \<Rightarrow> close_open 2 ?open)
                    @ [\<lparr>seg_pid = pid (?ps ! ?k), seg_start = 2, seg_end = None\<rparr>])),
         (if [2, 2 :: int] ! ?k = 1 then None else Some ?k))"
    by blast
  then have t: "srtf_tick ?ps (2, [2, 2], ?open, Some 0) = (3, [1, 2], ?open, Some 0)"
    unfolding k by simp
  from c have "srtf ?ps = srtf_loop ?ps 2 [2, 2] ?open (Some 0)" by blast
  moreover from c have "srtf_loop ?ps 2 [2, 2] ?open (Some 0)
      = srtf_loop ?ps (2 + 1) ([2, 2][?k := [2, 2] ! ?k - 1])
         (if [2, 2 :: int] ! ?k = 1
          then set_last_end (2 + 1) (if Some 0 = Some ?k then ?open
             else (case Some (0 :: nat) of None \<Rightarrow> ?open | Some c \<Rightarrow> close_open 2 ?open)
                    @ [\<lparr>seg_pid = pid (?ps ! ?k), seg_start = 2, seg_end = None\<rparr>])
          else (if Some 0 = Some ?k then ?open
             else (case Some (0 :: nat) of None \<Rightarrow> ?open | Some c \<Rightarrow> close_open 2 ?open)
                    @ [\<lparr>seg_pid = pid (?ps ! ?k), seg_start = 2, seg_end = None\<rparr>]))
         (if [2, 2 :: int] ! ?k = 1 then None else Some ?k)"
    by blast
  ultimately have l: "srtf ?ps = srtf_loop ?ps 3 [1, 2] ?open (Some 0)"
    unfolding k by simp
  from h1 h4 r so n t l show ?thesis by simp
qed

section \<open>Invalid input\<close>

text \<open>Rounding keeps a positive number positive.\<close>

lemma bit_length_le: "0 < n \<Longrightarrow> 2 ^ (bit_length n - 1) \<le> n"
proof (induction n rule: bit_length.induct)
  case (1 n)
  show ?case
  proof (cases "n = 1")
    case True
    have "bit_length 1 = Suc (bit_length 0)" by (subst bit_length.simps) simp
    also have "bit_length 0 = 0" by (subst bit_length.simps) simp
    finally show ?thesis using True by simp
  next
    case False
    then have h: "0 < n div 2" using "1.prems" by simp
    have n: "\<not> n \<le> 0" using "1.prems" by simp
    have ih: "2 ^ (bit_length (n div 2) - 1) \<le> n div 2" using n h by (rule "1.IH")
    have b: "bit_length n = Suc (bit_length (n div 2))"
      using n by (subst bit_length.simps) simp
    have "bit_length (n div 2) = Suc (bit_length (n div 2 div 2))"
      using h by (subst bit_length.simps) simp
    then have "bit_length n - 1 = Suc (bit_length (n div 2) - 1)" using b by simp
    then have "(2 :: int) ^ (bit_length n - 1) = 2 * 2 ^ (bit_length (n div 2) - 1)" by simp
    also have "\<dots> \<le> 2 * (n div 2)" using ih by simp
    also have "\<dots> \<le> n" by simp
    finally show ?thesis .
  qed
qed

lemma dbl_pos: "0 < x \<Longrightarrow> 0 < dbl x"
proof (cases "\<bar>x\<bar> \<le> 9007199254740992")
  case True
  assume "0 < x"
  then show ?thesis using True by (simp add: dbl_def)
next
  case False
  assume x: "0 < x"
  let ?ulp = "2 ^ (bit_length x - 53) :: int"
  let ?q' = "if 2 * (x mod ?ulp) < ?ulp then x div ?ulp
             else if ?ulp < 2 * (x mod ?ulp) then x div ?ulp + 1
             else if even (x div ?ulp) then x div ?ulp else x div ?ulp + 1"
  have u0: "0 < ?ulp" by simp
  have "?ulp \<le> 2 ^ (bit_length x - 1)" by (rule power_increasing) simp_all
  also have "\<dots> \<le> x" using x by (rule bit_length_le)
  finally have "?ulp \<le> x" .
  then have q: "0 < x div ?ulp" using u0 by (simp only: pos_imp_zdiv_pos_iff)
  then have q1: "0 < x div ?ulp + 1" by simp
  have e: "dbl x = ?q' * ?ulp" using False x by (simp add: dbl_def Let_def)
  have "0 < ?q'" using q q1 by presburger
  then have "0 < ?q' * ?ulp" using u0 by (rule mult_pos_pos)
  then show ?thesis unfolding e .
qed

text \<open>
  With a quantum below 1 and only positive bursts, a state with work left stays one:
  the slice is the quantum, no remaining time shrinks, and the process goes back to the
  queue.
\<close>

definition rr_stuck :: "process list \<Rightarrow> nat \<Rightarrow> nat list \<Rightarrow> int list \<Rightarrow> bool" where
  "rr_stuck procs i ready rem \<longleftrightarrow>
     length rem = length procs \<and> i \<le> length procs \<and> (ready \<noteq> [] \<or> i < length procs)
     \<and> (\<forall>j < length procs. 0 < rem ! j) \<and> (\<forall>j \<in> set ready. j < length procs)"

lemma rr_loop_stuck:
  assumes "rr_loop procs q t i ready rem schedule = Some y"
  shows "\<not> (q \<le> 0 \<and> rr_stuck procs i ready rem)"
proof (rule rr_loop.raw_induct
    [where P = "\<lambda>procs q t i ready rem schedule y. \<not> (q \<le> 0 \<and> rr_stuck procs i ready rem)",
     OF _ assms], goal_cases)
  case (1 f procs q t i ready rem schedule y)
  note IH = "1"(1) and body = "1"(2)
  show ?case
  proof
    assume a: "q \<le> 0 \<and> rr_stuck procs i ready rem"
    then have q: "q \<le> 0" and len: "length rem = length procs" and il: "i \<le> length procs"
      and work: "ready \<noteq> [] \<or> i < length procs" and pos: "\<forall>j < length procs. 0 < rem ! j"
      and rd: "\<forall>j \<in> set ready. j < length procs"
      by (simp_all add: rr_stuck_def)
    from rr_enqueue_spec [OF il, of t ready] obtain i1 where
      e: "rr_enqueue procs t i ready = (ready @ [i..<i1], i1)"
      and i1: "i \<le> i1" "i1 \<le> length procs"
      by blast
    define ready1 where "ready1 = ready @ [i..<i1]"
    have e': "rr_enqueue procs t i ready = (ready1, i1)" using e by (simp add: ready1_def)
    have rd1: "\<forall>j \<in> set ready1. j < length procs" using rd i1 by (auto simp: ready1_def)
    show False
    proof (cases "ready1 = []")
      case True
      then have r: "ready = []" and eq: "i1 = i" using i1(1) by (auto simp: ready1_def)
      have i: "i < length procs" using work r by simp
      have "f procs q (arrival (procs ! i)) i [] rem schedule = Some y"
        using body work e' True eq i by (simp add: Let_def)
      from IH [OF this] have "\<not> (q \<le> 0 \<and> rr_stuck procs i [] rem)" .
      then show False using q len il i pos by (simp add: rr_stuck_def)
    next
      case False
      define p where "p = hd ready1"
      have "p \<in> set ready1" using False by (simp add: p_def)
      then have pl: "p < length procs" using rd1 by simp
      then have rp: "0 < rem ! p" using pos by simp
      have run: "min q (rem ! p) = q" using q rp by simp
      define rem1 where "rem1 = rem[p := dsub (rem ! p) q]"
      have "0 < rem ! p - q" using rp q by simp
      then have dp: "0 < dsub (rem ! p) q" unfolding dsub_def by (rule dbl_pos)
      have pos1: "\<forall>j < length procs. 0 < rem1 ! j"
      proof (intro allI impI)
        fix j assume j: "j < length procs"
        show "0 < rem1 ! j"
        proof (cases "j = p")
          case True
          then show ?thesis using dp pl len by (simp add: rem1_def)
        next
          case False
          then show ?thesis using pos j by (simp add: rem1_def)
        qed
      qed
      have rp1: "0 < rem1 ! p" using pos1 pl by simp
      from rr_enqueue_spec [OF i1(2), of "dadd t q" "tl ready1"] obtain i2 where
        e1: "rr_enqueue procs (dadd t q) i1 (tl ready1) = (tl ready1 @ [i1..<i2], i2)"
        and i2: "i1 \<le> i2" "i2 \<le> length procs"
        by blast
      define ready2 where "ready2 = (tl ready1 @ [i1..<i2]) @ [p]"
      have "set (tl ready1) \<subseteq> set ready1" using False by (auto dest: list.set_sel(2))
      then have rd2: "\<forall>j \<in> set ready2. j < length procs"
        using rd1 i2 pl by (auto simp: ready2_def)
      have "f procs q (dadd t q) i2 ready2 rem1
              (schedule @ [\<lparr>seg_pid = pid (procs ! p), seg_start = t, seg_end = Some (dadd t q)\<rparr>]) = Some y"
        using body work e' False e1 rp1 run
        by (simp add: Let_def p_def [symmetric] rem1_def [symmetric] ready2_def)
      from IH [OF this] have "\<not> (q \<le> 0 \<and> rr_stuck procs i2 ready2 rem1)" .
      moreover have "rr_stuck procs i2 ready2 rem1"
        using len i2 pos1 rd2 by (simp add: rr_stuck_def rem1_def ready2_def)
      ultimately show False using q by simp
    qed
  qed
qed

lemma roundRobin_diverges:
  assumes "processes \<noteq> []" and "\<forall>p \<in> set processes. 0 < burst p" and "quantum \<le> 0"
  shows "roundRobin processes quantum = None"
proof (cases "roundRobin processes quantum")
  case None
  then show ?thesis .
next
  case (Some y)
  let ?procs = "sort_key arrival processes"
  let ?t = "case ?procs of [] \<Rightarrow> 0 | p # _ \<Rightarrow> arrival p"
  have l: "rr_loop ?procs quantum ?t 0 [] (map burst ?procs) [] = Some y"
    using Some by (simp add: roundRobin_def Let_def)
  have "0 < length ?procs" using assms(1) by simp
  moreover have "\<forall>j < length ?procs. 0 < map burst ?procs ! j"
  proof (intro allI impI)
    fix j assume j: "j < length ?procs"
    then have "?procs ! j \<in> set ?procs" by (rule nth_mem)
    then show "0 < map burst ?procs ! j" using assms(2) j by simp
  qed
  ultimately have "rr_stuck ?procs 0 [] (map burst ?procs)" by (simp add: rr_stuck_def)
  with rr_loop_stuck [OF l] assms(3) show ?thesis by simp
qed

text \<open>
  Claim C7, as stated, has every invalid input answered by a validation error with no
  simulation step computed. \<open>isSafe\<close> has no such check: with an allocation above the
  maximum it computes a negative need and answers "safe"; with rows shorter than
  \<open>available\<close> it computes \<open>NaN\<close> entries and answers "safe" as well. \<open>roundRobin\<close>
  with quantum 0 returns a schedule for the empty list, and for a process of burst 1
  it never returns.
\<close>

theorem validation_counterexample_C7:
  "isSafe [1] [[1]] [[2]] = Inr \<lparr>safe = True, sequence = [0], need = [[Some (- 1)]]\<rparr>
   \<and> isSafe [1, 1] [[1]] [[1]] = Inr \<lparr>safe = True, sequence = [0], need = [[Some 0, None]]\<rparr>
   \<and> roundRobin [] 0 = Some []
   \<and> roundRobin [\<lparr>pid = ''P1'', arrival = 0, burst = 1, priority = None\<rparr>] 0 = None"
proof -
  have d: "roundRobin [\<lparr>pid = ''P1'', arrival = 0, burst = 1, priority = None\<rparr>] 0 = None"
    by (rule roundRobin_diverges) simp_all
  have a: "isSafe [1] [[1]] [[2]] = Inr \<lparr>safe = True, sequence = [0], need = [[Some (- 1)]]\<rparr>"
    by code_simp
  have b: "isSafe [1, 1] [[1]] [[1]] = Inr \<lparr>safe = True, sequence = [0], need = [[Some 0, None]]\<rparr>"
    by code_simp
  have c: "roundRobin [] 0 = Some []" by (simp add: roundRobin_def rr_loop.simps)
  from a b c d show ?thesis by simp
qed

text \<open>
  Claim C7, amended. The functions do not validate their input. \<open>isSafe\<close> answers every
  input of matching dimensions, whose needs and whose available plus allocated
  resources stay within \<open>2^53\<close> in magnitude, with a verdict, also when an allocation
  entry exceeds the maximum: the need is the (then negative) difference and the verdict
  is that of the scan. Its only error is the \<open>TypeError\<close> of reading a missing allocation row while
  \<open>need\<close> is built, before the search: that is when \<open>allocation\<close> has fewer rows than
  \<open>max\<close> and there is a resource type. \<open>roundRobin\<close> has no error result; on the empty
  list it returns the empty schedule whatever the quantum.
\<close>

theorem validation_C7:
  "(dims_match available maxm alloc \<and> magnitudes_ok available maxm alloc \<longrightarrow>
      isSafe available maxm alloc
        = Inr \<lparr>safe = spec_safe available maxm alloc,
               sequence = (if spec_safe available maxm alloc
                           then spec_finish_order available maxm alloc else []),
               need = map (map Some) (need_of maxm alloc)\<rparr>)
   \<and> ((\<exists>e. isSafe available maxm alloc = Inl e)
        \<longleftrightarrow> 0 < length available \<and> length alloc < length maxm)
   \<and> roundRobin [] quantum = Some []"
proof -
  have a: "dims_match available maxm alloc \<and> magnitudes_ok available maxm alloc \<longrightarrow>
      isSafe available maxm alloc
        = Inr \<lparr>safe = spec_safe available maxm alloc,
               sequence = (if spec_safe available maxm alloc
                           then spec_finish_order available maxm alloc else []),
               need = map (map Some) (need_of maxm alloc)\<rparr>"
    by (simp add: isSafe_result)
  have b: "(\<exists>e. isSafe available maxm alloc = Inl e)
        \<longleftrightarrow> 0 < length available \<and> length alloc < length maxm"
    by (auto simp: isSafe_def Let_def)
  have c: "roundRobin [] quantum = Some []" by (simp add: roundRobin_def rr_loop.simps)
  from a b c show ?thesis by blast
qed

theorem validation_C7_witness:
  "dims_match [1] [[1]] [[2]]
   \<and> magnitudes_ok [1] [[1]] [[2]]
   \<and> isSafe [1] [[1]] [[2]]
       = Inr \<lparr>safe = spec_safe [1] [[1]] [[2]],
              sequence = (if spec_safe [1] [[1]] [[2]] then spec_finish_order [1] [[1]] [[2]] else []),
              need = [[Some (- 1)]]\<rparr>
   \<and> isSafe [1] [[1], [1]] [[1]] = Inl TypeError"
proof -
  have d: "dims_match [1] [[1]] [[2]]" by (simp add: dims_match_def)
  have m: "magnitudes_ok [1] [[1]] [[2]]" by (simp add: magnitudes_ok_def)
  have n: "map (map Some) (need_of [[1]] [[2]]) = [[Some (- 1)]]" by (simp add: need_of_def)
  have e: "isSafe [1] [[1], [1]] [[1]] = Inl TypeError" by (simp add: isSafe_def)
  from validation_C7 [of "[1]" "[[1]]" "[[2]]"] d m n e show ?thesis by simp
qed

end
